theory Spec2Isabelle
  imports Complex_Main "HOL-Library.Word"
begin

section \<open>JavaScript numbers\<close>

text \<open>
  Every number of \<^verbatim>\<open>src/lib/ascii.ts\<close> is an IEEE-754 binary64 value. A finite one is
  modelled by the rational it denotes, and each arithmetic operation rounds the exact
  result to the nearest binary64 value, ties to even, with gradual underflow below
  \<open>2 powi (- 1022)\<close> and overflow to an infinity from \<open>2 powi 1024\<close> on. The sign of zero
  is not modelled: the program divides only by counts and by products of non-negative
  numbers. Loop counters, pixel counts and buffer indices are natural numbers; they stay
  below \<open>2 ^ 53\<close>, where binary64 is exact on integers.
\<close>

function bitlen :: "int \<Rightarrow> int" where
  "bitlen n = (if n \<le> 0 then 0 else 1 + bitlen (n div 2))"
  by pat_completeness auto
termination
  by (relation "measure nat") auto

declare bitlen.simps [simp del]

definition ilog2 :: "rat \<Rightarrow> int" where
  \<comment> \<open>for \<open>0 < x\<close>: the exponent \<open>e\<close> with \<open>2 powi e \<le> x < 2 powi (e + 1)\<close>\<close>
  "ilog2 x = (let (p, q) = quotient_of x;
                  d = bitlen p - bitlen q
              in if 2 powi d \<le> x then d else d - 1)"

definition rne :: "rat \<Rightarrow> int" where
  \<comment> \<open>nearest integer, ties to the even one\<close>
  "rne m = (let f = \<lfloor>m\<rfloor>; r = m - of_int f
            in if r < 1 / 2 then f else if 1 / 2 < r then f + 1
               else if even f then f else f + 1)"

definition ulp_exp :: "rat \<Rightarrow> int" where
  \<comment> \<open>exponent of the unit in the last place of the 53-bit significand\<close>
  "ulp_exp x = max (ilog2 \<bar>x\<bar>) (- 1022) - 52"

definition fl :: "rat \<Rightarrow> rat" where
  "fl x = (if x = 0 then 0
           else let u = 2 powi (ulp_exp x) in of_int (rne (x / u)) * u)"

datatype jsnum = Fin rat | PInf | NInf | NaN

definition rnd :: "rat \<Rightarrow> jsnum" where
  \<comment> \<open>the largest finite binary64 value is below \<open>2 powi 1024\<close>\<close>
  "rnd x = (let y = fl x
            in if y = 0 then Fin 0
               else if 1024 \<le> ilog2 \<bar>y\<bar> then (if 0 < y then PInf else NInf)
               else Fin y)"

definition num :: "nat \<Rightarrow> jsnum" where
  \<comment> \<open>a natural number below \<open>2 ^ 53\<close> as a number\<close>
  "num n = Fin (of_int (int n))"

fun jneg :: "jsnum \<Rightarrow> jsnum" where
  "jneg (Fin a) = Fin (- a)"
| "jneg PInf = NInf"
| "jneg NInf = PInf"
| "jneg NaN = NaN"

fun jadd :: "jsnum \<Rightarrow> jsnum \<Rightarrow> jsnum" where
  "jadd (Fin a) (Fin b) = rnd (a + b)"
| "jadd NaN _ = NaN"
| "jadd _ NaN = NaN"
| "jadd PInf NInf = NaN"
| "jadd NInf PInf = NaN"
| "jadd PInf _ = PInf"
| "jadd _ PInf = PInf"
| "jadd NInf _ = NInf"
| "jadd _ NInf = NInf"

definition jsub :: "jsnum \<Rightarrow> jsnum \<Rightarrow> jsnum" where
  "jsub a b = jadd a (jneg b)"

fun jmul :: "jsnum \<Rightarrow> jsnum \<Rightarrow> jsnum" where
  "jmul (Fin a) (Fin b) = rnd (a * b)"
| "jmul NaN _ = NaN"
| "jmul _ NaN = NaN"
| "jmul (Fin a) PInf = (if a = 0 then NaN else if 0 < a then PInf else NInf)"
| "jmul (Fin a) NInf = (if a = 0 then NaN else if 0 < a then NInf else PInf)"
| "jmul PInf (Fin b) = (if b = 0 then NaN else if 0 < b then PInf else NInf)"
| "jmul NInf (Fin b) = (if b = 0 then NaN else if 0 < b then NInf else PInf)"
| "jmul PInf PInf = PInf"
| "jmul PInf NInf = NInf"
| "jmul NInf PInf = NInf"
| "jmul NInf NInf = PInf"

fun jdiv :: "jsnum \<Rightarrow> jsnum \<Rightarrow> jsnum" where
  "jdiv (Fin a) (Fin b) =
     (if b = 0 then (if a = 0 then NaN else if 0 < a then PInf else NInf)
      else rnd (a / b))"
| "jdiv NaN _ = NaN"
| "jdiv _ NaN = NaN"
| "jdiv (Fin a) PInf = Fin 0"
| "jdiv (Fin a) NInf = Fin 0"
| "jdiv PInf (Fin b) = (if 0 \<le> b then PInf else NInf)"
| "jdiv NInf (Fin b) = (if 0 \<le> b then NInf else PInf)"
| "jdiv PInf PInf = NaN"
| "jdiv PInf NInf = NaN"
| "jdiv NInf PInf = NaN"
| "jdiv NInf NInf = NaN"

fun js_floor :: "jsnum \<Rightarrow> jsnum" where
  \<comment> \<open>\<^verbatim>\<open>Math.floor\<close>\<close>
  "js_floor (Fin a) = Fin (of_int \<lfloor>a\<rfloor>)"
| "js_floor x = x"

fun js_round :: "jsnum \<Rightarrow> jsnum" where
  \<comment> \<open>\<^verbatim>\<open>Math.round\<close>: the nearest integer, a tie going up\<close>
  "js_round (Fin a) = Fin (of_int \<lfloor>a + 1 / 2\<rfloor>)"
| "js_round x = x"

definition js_index :: "'a list \<Rightarrow> jsnum \<Rightarrow> 'a option" where
  \<comment> \<open>\<^verbatim>\<open>xs[i]\<close> for a number \<open>i\<close>; \<open>None\<close> is \<^verbatim>\<open>undefined\<close>\<close>
  "js_index xs i =
     (case i of
        Fin q \<Rightarrow> (if 0 \<le> q \<and> of_int \<lfloor>q\<rfloor> = q \<and> nat \<lfloor>q\<rfloor> < length xs
                  then Some (xs ! nat \<lfloor>q\<rfloor>) else None)
      | _ \<Rightarrow> None)"

definition js_range :: "jsnum \<Rightarrow> jsnum \<Rightarrow> nat list" where
  \<comment> \<open>the values of \<open>v\<close> in \<^verbatim>\<open>for (let v = a; v < b; v++)\<close>, for the bounds the
      program has inside its loops: natural numbers (lemma \<open>cell_edge\<close> below); a bound
      that is not finite arises only for a grid without rows or columns, which visits no
      cell\<close>
  "js_range a b =
     (case (a, b) of
        (Fin x, Fin y) \<Rightarrow> [nat \<lfloor>x\<rfloor> ..< nat \<lceil>y\<rceil>]
      | _ \<Rightarrow> [])"

section \<open>Strings\<close>

text \<open>
  A string is a list of characters; a value that may be \<^verbatim>\<open>undefined\<close> is an option.
  Appending \<^verbatim>\<open>undefined\<close> to a string appends the nine characters of its name.
\<close>

type_synonym glyph = "string option"

definition js_str :: "glyph \<Rightarrow> string" where
  "js_str g = (case g of None \<Rightarrow> ''undefined'' | Some s \<Rightarrow> s)"

definition newline :: string where
  "newline = [CHR 0x0A]"

definition digit :: "nat \<Rightarrow> char" where
  "digit d = ''0123456789'' ! d"

function nat_str :: "nat \<Rightarrow> string" where
  "nat_str n = (if n < 10 then [digit n] else nat_str (n div 10) @ [digit (n mod 10)])"
  by pat_completeness auto
termination
  by (relation "measure id") auto

declare nat_str.simps [simp del]

fun num_str :: "jsnum \<Rightarrow> string" where
  \<comment> \<open>the text of a number that \<^verbatim>\<open>Math.round\<close> returned, inside a template literal\<close>
  "num_str (Fin a) = (if a < 0 then ''-'' @ nat_str (nat \<lfloor>- a\<rfloor>) else nat_str (nat \<lfloor>a\<rfloor>))"
| "num_str PInf = ''Infinity''"
| "num_str NInf = ''-Infinity''"
| "num_str NaN = ''NaN''"

section \<open>The conversion library\<close>

definition CHARSETS_simple :: string where
  "CHARSETS_simple = '' .:-=+*#%@''"

definition CHAR_Y_PER_X :: jsnum where
  "CHAR_Y_PER_X = Fin 2"

text \<open>The weights are the binary64 values nearest to the decimal literals.\<close>

definition LUMINANCE_WEIGHTS_R :: jsnum where
  "LUMINANCE_WEIGHTS_R = rnd (2126 / 10000)"

definition LUMINANCE_WEIGHTS_G :: jsnum where
  "LUMINANCE_WEIGHTS_G = rnd (7152 / 10000)"

definition LUMINANCE_WEIGHTS_B :: jsnum where
  "LUMINANCE_WEIGHTS_B = rnd (722 / 10000)"

definition calculateLuminance :: "jsnum \<Rightarrow> jsnum \<Rightarrow> jsnum \<Rightarrow> jsnum" where
  "calculateLuminance r g b =
     js_round (jadd (jadd (jmul r LUMINANCE_WEIGHTS_R) (jmul g LUMINANCE_WEIGHTS_G))
                    (jmul b LUMINANCE_WEIGHTS_B))"

datatype error = InvalidArgument string

definition charset_at :: "'c list \<Rightarrow> jsnum \<Rightarrow> 'c list option" where
  \<comment> \<open>\<^verbatim>\<open>charset[charIndex]\<close>: the one-character string at that index\<close>
  "charset_at charset i = map_option (\<lambda>c. [c]) (js_index charset i)"

definition char_index :: "nat \<Rightarrow> bool \<Rightarrow> nat \<Rightarrow> jsnum" where
  \<comment> \<open>the value of \<^verbatim>\<open>charIndex\<close> at the end of one round of the loop\<close>
  "char_index charCount invert brightness =
     (let charIndex = js_floor (jmul (jdiv (num brightness) (Fin 255))
                                     (jsub (num charCount) (Fin 1)))
      in if invert then jsub (jsub (num charCount) (Fin 1)) charIndex
         else charIndex)"

definition createBrightnessLUT :: "'c list \<Rightarrow> bool \<Rightarrow> error + 'c list option list" where
  \<comment> \<open>for a charset over any alphabet \<open>'c\<close>: the function never looks into a character\<close>
  "createBrightnessLUT charset invert =
     (if charset = [] then Inl (InvalidArgument ''Charset cannot be empty'')
      else Inr (fold (\<lambda>brightness lut.
                        lut[brightness :=
                              charset_at charset (char_index (length charset) invert brightness)])
                     [0..<256] (replicate 256 None)))"

definition calculateGridDimensions :: "nat \<Rightarrow> nat \<Rightarrow> nat \<Rightarrow> nat \<times> jsnum" where
  \<comment> \<open>the pair \<^verbatim>\<open>{ cols, rows }\<close>\<close>
  "calculateGridDimensions videoWidth videoHeight cols =
     (let rows = js_floor (jdiv (num videoHeight)
                                (jmul (jdiv (num videoWidth) (num cols))
                                      CHAR_Y_PER_X))
      in (cols, rows))"

record imageData =
  data :: "8 word list"
  width :: nat
  height :: nat

record asciiResult =
  ascii :: string
  colors :: "string list option"

definition px :: "8 word list \<Rightarrow> nat \<Rightarrow> jsnum" where
  \<comment> \<open>\<^verbatim>\<open>data[index]\<close> as an operand of \<^verbatim>\<open>+=\<close>: \<^verbatim>\<open>undefined\<close> becomes \<^verbatim>\<open>NaN\<close>\<close>
  "px d i = (if i < length d then num (unat (d ! i)) else NaN)"

type_synonym totals = "jsnum \<times> jsnum \<times> jsnum \<times> nat"

definition add_pixel :: "imageData \<Rightarrow> nat \<Rightarrow> nat \<Rightarrow> totals \<Rightarrow> totals" where
  \<comment> \<open>the body of the innermost loop, on \<^verbatim>\<open>(totalR, totalG, totalB, pixelCount)\<close>\<close>
  "add_pixel img y x t =
     (case t of (totalR, totalG, totalB, pixelCount) \<Rightarrow>
        let index = (y * width img + x) * 4
        in (jadd totalR (px (data img) index),
            jadd totalG (px (data img) (index + 1)),
            jadd totalB (px (data img) (index + 2)),
            pixelCount + 1))"

definition cell_totals ::
  "imageData \<Rightarrow> jsnum \<Rightarrow> jsnum \<Rightarrow> jsnum \<Rightarrow> jsnum \<Rightarrow> totals" where
  "cell_totals img startX endX startY endY =
     fold (\<lambda>y t. fold (add_pixel img y) (js_range startX endX) t)
          (js_range startY endY) (Fin 0, Fin 0, Fin 0, 0)"

definition rgb_str :: "jsnum \<Rightarrow> jsnum \<Rightarrow> jsnum \<Rightarrow> string" where
  "rgb_str avgR avgG avgB =
     ''rgb('' @ num_str (js_round avgR) @ '', '' @ num_str (js_round avgG) @ '', ''
       @ num_str (js_round avgB) @ '')''"

definition cell_sums :: "imageData \<Rightarrow> jsnum \<Rightarrow> jsnum \<Rightarrow> nat \<Rightarrow> nat \<Rightarrow> totals" where
  \<comment> \<open>the rectangle of cell \<open>(row, col)\<close> and the sums over it\<close>
  "cell_sums img cellWidth cellHeight row col =
     (let startX = js_floor (jmul (num col) cellWidth);
          endX = js_floor (jmul (num (col + 1)) cellWidth);
          startY = js_floor (jmul (num row) cellHeight);
          endY = js_floor (jmul (num (row + 1)) cellHeight)
      in cell_totals img startX endX startY endY)"

definition cell_step ::
  "imageData \<Rightarrow> glyph list \<Rightarrow> bool \<Rightarrow> jsnum \<Rightarrow> jsnum \<Rightarrow> nat \<Rightarrow> nat
     \<Rightarrow> string \<times> string \<Rightarrow> string \<times> string" where
  \<comment> \<open>the body of the loop over \<^verbatim>\<open>col\<close>, on \<^verbatim>\<open>(rowString, rowColor)\<close>\<close>
  "cell_step img lut colorMode cellWidth cellHeight row col s =
     (case s of (rowString, rowColor) \<Rightarrow>
      case cell_sums img cellWidth cellHeight row col of
        (totalR, totalG, totalB, pixelCount) \<Rightarrow>
          if 0 < pixelCount then
            let avgR = jdiv totalR (num pixelCount);
                avgG = jdiv totalG (num pixelCount);
                avgB = jdiv totalB (num pixelCount);
                brightness = calculateLuminance avgR avgG avgB;
                char = js_index lut brightness
            in (rowString @ js_str (Option.bind char id),
                if colorMode then rgb_str avgR avgG avgB else rowColor)
          else (rowString @ js_str (Option.bind (js_index lut (Fin 0)) id), rowColor))"

definition row_step ::
  "imageData \<Rightarrow> nat \<Rightarrow> glyph list \<Rightarrow> bool \<Rightarrow> jsnum \<Rightarrow> jsnum \<Rightarrow> nat
     \<Rightarrow> string \<times> string list \<Rightarrow> string \<times> string list" where
  \<comment> \<open>the body of the loop over \<^verbatim>\<open>row\<close>, on \<^verbatim>\<open>(ascii, colors)\<close>\<close>
  "row_step img cols lut colorMode cellWidth cellHeight row s =
     (case s of (ascii', colors') \<Rightarrow>
      case fold (cell_step img lut colorMode cellWidth cellHeight row) [0..<cols] ('''', '''') of
        (rowString, rowColor) \<Rightarrow>
          (ascii' @ rowString @ newline, if colorMode then colors' @ [rowColor] else colors'))"

definition imageDataToAscii ::
  "imageData \<Rightarrow> nat \<Rightarrow> nat \<Rightarrow> glyph list \<Rightarrow> bool \<Rightarrow> asciiResult" where
  "imageDataToAscii img cols rows lut colorMode =
     (let cellWidth = jdiv (num (width img)) (num cols);
          cellHeight = jdiv (num (height img)) (num rows)
      in case fold (row_step img cols lut colorMode cellWidth cellHeight) [0..<rows] ('''', []) of
           (ascii', colors') \<Rightarrow>
             \<lparr>ascii = ascii', colors = (if colorMode then Some colors' else None)\<rparr>)"

section \<open>Notions used by the statements\<close>

definition binary64_glyph_index :: "nat \<Rightarrow> nat \<Rightarrow> nat" where
  \<comment> \<open>what the program computes for \<^verbatim>\<open>Math.floor((brightness / 255) * (charCount - 1))\<close>:
      the quotient is rounded to binary64, then the product is\<close>
  "binary64_glyph_index N b = nat \<lfloor>fl (fl (of_nat b / 255) * (of_nat N - 1))\<rfloor>"

definition spec_glyph_index :: "nat \<Rightarrow> nat \<Rightarrow> int" where
  \<comment> \<open>the glyph index of the specification, \<open>floor((b / 255) * (N - 1))\<close>, as a formula
      over the rational numbers\<close>
  "spec_glyph_index N b = \<lfloor>(of_nat b / 255) * (of_nat N - 1) :: rat\<rfloor>"

definition alphabet52 :: string where
  \<comment> \<open>a charset of 52 different glyphs\<close>
  "alphabet52 = ''ABCDEFGHIJKLMNOPQRSTUVWXYZabcdefghijklmnopqrstuvwxyz''"

definition wf_image :: "imageData \<Rightarrow> bool" where
  \<comment> \<open>a raster as \<^verbatim>\<open>ImageData\<close> has it: four bytes for each pixel and 32-bit dimensions;
      with fewer than \<open>2 ^ 45\<close> pixels every channel sum stays below \<open>2 ^ 53\<close>\<close>
  "wf_image img \<longleftrightarrow>
     length (data img) = 4 * width img * height img \<and>
     width img < 2 ^ 32 \<and> height img < 2 ^ 32 \<and> width img * height img < 2 ^ 45"

definition is_glyph :: "glyph \<Rightarrow> bool" where
  "is_glyph g = (case g of None \<Rightarrow> False | Some s \<Rightarrow> length s = 1)"

definition wf_lut :: "glyph list \<Rightarrow> bool" where
  \<comment> \<open>a lookup table: 256 entries, each one glyph\<close>
  "wf_lut lut \<longleftrightarrow> length lut = 256 \<and> list_all is_glyph lut"

definition pixel_count :: "totals \<Rightarrow> nat" where
  "pixel_count t = (case t of (totalR, totalG, totalB, pixelCount) \<Rightarrow> pixelCount)"

definition nat_upto :: "jsnum \<Rightarrow> nat \<Rightarrow> bool" where
  "nat_upto x m =
     (case x of Fin q \<Rightarrow> 0 \<le> q \<and> of_int \<lfloor>q\<rfloor> = q \<and> q \<le> of_int (int m) | _ \<Rightarrow> False)"

definition sums_ok :: "totals \<Rightarrow> bool" where
  \<comment> \<open>each channel sum is a natural number, at most 255 for each pixel counted\<close>
  "sums_ok t = (case t of (totalR, totalG, totalB, pixelCount) \<Rightarrow>
     nat_upto totalR (255 * pixelCount) \<and> nat_upto totalG (255 * pixelCount)
       \<and> nat_upto totalB (255 * pixelCount))"

definition grid_cell :: "imageData \<Rightarrow> nat \<Rightarrow> nat \<Rightarrow> nat \<Rightarrow> nat \<Rightarrow> totals" where
  \<comment> \<open>the sums over cell \<open>(row, col)\<close> in a conversion to \<open>cols\<close> columns and \<open>rows\<close> rows\<close>
  "grid_cell img cols rows row col =
     cell_sums img (jdiv (num (width img)) (num cols)) (jdiv (num (height img)) (num rows))
       row col"

definition cell_luminance :: "totals \<Rightarrow> jsnum" where
  \<comment> \<open>\<^verbatim>\<open>brightness\<close>, from the sums of a cell\<close>
  "cell_luminance t = (case t of (totalR, totalG, totalB, pixelCount) \<Rightarrow>
     calculateLuminance (jdiv totalR (num pixelCount)) (jdiv totalG (num pixelCount))
       (jdiv totalB (num pixelCount)))"

definition cell_rgb :: "totals \<Rightarrow> string" where
  \<comment> \<open>the colour text, from the sums of a cell\<close>
  "cell_rgb t = (case t of (totalR, totalG, totalB, pixelCount) \<Rightarrow>
     rgb_str (jdiv totalR (num pixelCount)) (jdiv totalG (num pixelCount))
       (jdiv totalB (num pixelCount)))"

definition cell_text :: "glyph list \<Rightarrow> totals \<Rightarrow> string" where
  \<comment> \<open>the text that one cell adds to \<^verbatim>\<open>rowString\<close>\<close>
  "cell_text lut t =
     js_str (Option.bind (js_index lut (if 0 < pixel_count t then cell_luminance t else Fin 0)) id)"

definition row_text :: "imageData \<Rightarrow> nat \<Rightarrow> nat \<Rightarrow> glyph list \<Rightarrow> nat \<Rightarrow> string" where
  "row_text img cols rows lut row =
     concat (map (\<lambda>col. cell_text lut (grid_cell img cols rows row col)) [0..<cols])"

definition row_color :: "imageData \<Rightarrow> nat \<Rightarrow> nat \<Rightarrow> nat \<Rightarrow> string" where
  \<comment> \<open>\<^verbatim>\<open>rowColor\<close> at the end of a row, in colour mode\<close>
  "row_color img cols rows row =
     fold (\<lambda>col rowColor.
             if 0 < pixel_count (grid_cell img cols rows row col)
             then cell_rgb (grid_cell img cols rows row col) else rowColor)
          [0..<cols] ''''"

definition gray_raster :: imageData where
  \<comment> \<open>two by two pixels, each \<open>(128, 128, 128)\<close> and opaque\<close>
  "gray_raster =
     \<lparr>data = [128, 128, 128, 255, 128, 128, 128, 255, 128, 128, 128, 255, 128, 128, 128, 255],
      width = 2, height = 2\<rparr>"

definition one_pixel :: imageData where
  \<comment> \<open>a single pixel \<open>(10, 20, 30)\<close>\<close>
  "one_pixel = \<lparr>data = [10, 20, 30, 255], width = 1, height = 1\<rparr>"

definition flat_lut :: "glyph list" where
  "flat_lut = replicate 256 (Some ''x'')"

definition binary64_rows :: "nat \<Rightarrow> nat \<Rightarrow> nat \<Rightarrow> int" where
  \<comment> \<open>what the program computes for
      \<^verbatim>\<open>Math.floor(videoHeight / (videoWidth / cols * CHAR_Y_PER_X))\<close>: each of the two
      quotients and the product is rounded to binary64\<close>
  "binary64_rows sourceWidth sourceHeight columns =
     \<lfloor>fl (of_nat sourceHeight / fl (fl (of_nat sourceWidth / of_nat columns) * 2))\<rfloor>"

definition spec_rows :: "nat \<Rightarrow> nat \<Rightarrow> nat \<Rightarrow> int" where
  \<comment> \<open>the row count of the specification,
      \<open>floor(sourceHeight / ((sourceWidth / columns) * 2))\<close>, as a formula over the rational
      numbers\<close>
  "spec_rows sourceWidth sourceHeight columns =
     \<lfloor>of_nat sourceHeight / ((of_nat sourceWidth / of_nat columns) * 2) :: rat\<rfloor>"


section \<open>Rounding to binary64\<close>

lemma bitlen_nonneg: "0 \<le> bitlen n"
  by (induction n rule: bitlen.induct) (subst bitlen.simps, auto)

lemma bitlen_pos: "0 < n \<Longrightarrow> 0 < bitlen n"
  using bitlen_nonneg [of "n div 2"] by (subst bitlen.simps) auto

lemma bitlen_bounds:
  "0 < n \<Longrightarrow> 2 ^ nat (bitlen n - 1) \<le> n \<and> n < 2 ^ nat (bitlen n)"
proof (induction n rule: bitlen.induct)
  case (1 n)
  show ?case
  proof (cases "n = 1")
    case True
    have "bitlen 1 = 1" by (simp add: bitlen.simps)
    with True show ?thesis by simp
  next
    case False
    with 1(2) have h: "0 < n div 2" by simp
    from 1(1) h 1(2) have ih: "2 ^ nat (bitlen (n div 2) - 1) \<le> n div 2"
      "n div 2 < 2 ^ nat (bitlen (n div 2))"
      by auto
    have b: "bitlen n = 1 + bitlen (n div 2)" using 1(2) by (subst bitlen.simps) simp
    have p: "0 < bitlen (n div 2)" using h by (rule bitlen_pos)
    have e1: "nat (bitlen n - 1) = Suc (nat (bitlen (n div 2) - 1))" using b p by simp
    have e2: "nat (bitlen n) = Suc (nat (bitlen (n div 2)))" using b p by simp
    show ?thesis unfolding e1 e2 using ih by simp presburger
  qed
qed

lemma bitlen_powi:
  assumes "0 < n"
  shows "(2::rat) powi (bitlen n - 1) \<le> of_int n" "of_int n < (2::rat) powi (bitlen n)"
proof -
  from bitlen_bounds [OF assms]
  have a: "2 ^ nat (bitlen n - 1) \<le> n" and b: "n < 2 ^ nat (bitlen n)" by auto
  have p: "0 < bitlen n" using assms by (rule bitlen_pos)
  have "(of_int (2 ^ nat (bitlen n - 1)) :: rat) \<le> of_int n" using a by (simp only: of_int_le_iff)
  then show "(2::rat) powi (bitlen n - 1) \<le> of_int n" using p by (simp add: power_int_def)
  have "(of_int n :: rat) < of_int (2 ^ nat (bitlen n))" using b by (simp only: of_int_less_iff)
  then show "of_int n < (2::rat) powi (bitlen n)" using p by (simp add: power_int_def)
qed

lemma p2_less_iff: "(2::rat) powi a < 2 powi b \<longleftrightarrow> a < b"
proof
  assume h: "(2::rat) powi a < 2 powi b"
  show "a < b"
  proof (rule ccontr)
    assume "\<not> a < b"
    then have "b \<le> a" by simp
    then have "(2::rat) powi b \<le> 2 powi a" by (intro power_int_increasing) auto
    with h show False by simp
  qed
next
  assume "a < b"
  then show "(2::rat) powi a < 2 powi b" by (intro power_int_strict_increasing) auto
qed

lemma p2_le_iff: "(2::rat) powi a \<le> 2 powi b \<longleftrightarrow> a \<le> b"
  using p2_less_iff [of b a] by (auto simp: not_less [symmetric])

lemma p2_pos: "0 < (2::rat) powi a"
  by simp

lemma p2_add: "(2::rat) powi (a + b) = 2 powi a * 2 powi b"
  by (rule power_int_add) simp

lemma p2_diff: "(2::rat) powi (a - b) = 2 powi a / 2 powi b"
  by (rule power_int_diff) simp

lemma ilog2_bounds:
  assumes "0 < x"
  shows "2 powi (ilog2 x) \<le> x" "x < 2 powi (ilog2 x + 1)"
proof -
  obtain p q where pq: "quotient_of x = (p, q)" by (cases "quotient_of x")
  have q: "0 < q" using pq quotient_of_denom_pos by blast
  have x: "x = of_int p / of_int q" using pq by (rule quotient_of_div)
  have p: "0 < p" using assms q x by (simp add: zero_less_divide_iff)
  define d where "d = bitlen p - bitlen q"
  note bp = bitlen_powi [OF p] and bq = bitlen_powi [OF q]
  have lo: "2 powi (d - 1) \<le> x"
  proof -
    have "(2::rat) powi (d - 1) = 2 powi (bitlen p - 1) / 2 powi (bitlen q)"
      by (simp add: d_def p2_diff)
    also have "\<dots> \<le> of_int p / of_int q"
      using bp bq q p by (intro frac_le) auto
    finally show ?thesis using x by simp
  qed
  have hi: "x < 2 powi (d + 1)"
  proof -
    have "of_int p / of_int q < (2::rat) powi (bitlen p) / 2 powi (bitlen q - 1)"
      using bp bq q p by (intro frac_less) auto
    also have "\<dots> = 2 powi (d + 1)"
      by (simp add: d_def p2_diff p2_add)
    finally show ?thesis using x by simp
  qed
  have il: "ilog2 x = (if 2 powi d \<le> x then d else d - 1)"
    by (simp add: ilog2_def pq d_def Let_def)
  show "2 powi (ilog2 x) \<le> x" using lo il by auto
  show "x < 2 powi (ilog2 x + 1)" using hi il by auto
qed

lemma ilog2_mono:
  assumes "0 < x" "x \<le> y"
  shows "ilog2 x \<le> ilog2 y"
proof -
  have y: "0 < y" using assms by simp
  have "(2::rat) powi (ilog2 x) < 2 powi (ilog2 y + 1)"
    using ilog2_bounds(1) [OF assms(1)] ilog2_bounds(2) [OF y] assms(2) by simp
  then show ?thesis by (simp add: p2_less_iff)
qed

lemma rne_floor_le: "\<lfloor>a\<rfloor> \<le> rne a"
  by (simp add: rne_def Let_def)

lemma rne_le_floor: "rne a \<le> \<lfloor>a\<rfloor> + 1"
  by (simp add: rne_def Let_def)

lemma rne_of_int [simp]: "rne (of_int k) = k"
  by (simp add: rne_def)

lemma rne_mono:
  assumes "a \<le> b"
  shows "rne a \<le> rne b"
proof (cases "\<lfloor>a\<rfloor> = \<lfloor>b\<rfloor>")
  case True
  have "a - of_int \<lfloor>a\<rfloor> \<le> b - of_int \<lfloor>b\<rfloor>" using assms True by simp
  then show ?thesis using True by (auto simp: rne_def Let_def)
next
  case False
  have "\<lfloor>a\<rfloor> \<le> \<lfloor>b\<rfloor>" using assms by (rule floor_mono)
  with False have "\<lfloor>a\<rfloor> + 1 \<le> \<lfloor>b\<rfloor>" by simp
  then show ?thesis using rne_le_floor [of a] rne_floor_le [of b] by linarith
qed

lemma rne_err: "\<bar>of_int (rne a) - a\<bar> \<le> 1 / 2"
proof -
  have "of_int \<lfloor>a\<rfloor> \<le> a" "a < of_int \<lfloor>a\<rfloor> + 1" by linarith+
  then show ?thesis by (auto simp: rne_def Let_def abs_le_iff)
qed

lemma rne_nonneg: "0 \<le> a \<Longrightarrow> 0 \<le> rne a"
  using rne_mono [of 0 a] rne_of_int [of 0] by simp

lemma fl_0 [simp]: "fl 0 = 0"
  by (simp add: fl_def)

lemma fl_eq:
  "x \<noteq> 0 \<Longrightarrow> fl x = of_int (rne (x / 2 powi (ulp_exp x))) * 2 powi (ulp_exp x)"
  by (simp add: fl_def Let_def)

lemma fl_nonneg: "0 \<le> x \<Longrightarrow> 0 \<le> fl x"
  by (cases "x = 0") (auto simp: fl_eq intro!: mult_nonneg_nonneg rne_nonneg)

lemma ulp_exp_mono: "0 < x \<Longrightarrow> x \<le> y \<Longrightarrow> ulp_exp x \<le> ulp_exp y"
  using ilog2_mono [of x y] by (simp add: ulp_exp_def)

lemma fl_upper:
  assumes "0 < x"
  shows "fl x \<le> 2 powi (ulp_exp x + 53)"
proof -
  let ?u = "(2::rat) powi (ulp_exp x)"
  have "x < 2 powi (ilog2 x + 1)" using ilog2_bounds(2) [OF assms] .
  also have "\<dots> \<le> 2 powi (ulp_exp x + 53)"
    using assms by (simp add: p2_le_iff ulp_exp_def)
  finally have "x / ?u \<le> 2 powi (ulp_exp x + 53) / ?u"
    by (simp add: divide_right_mono)
  also have "\<dots> = of_int (2 ^ 53)" by (simp add: p2_add)
  finally have "rne (x / ?u) \<le> 2 ^ 53" using rne_mono rne_of_int by metis
  then have "(of_int (rne (x / ?u)) :: rat) \<le> of_int (2 ^ 53)" by (simp only: of_int_le_iff)
  then have "of_int (rne (x / ?u)) * ?u \<le> of_int (2 ^ 53) * ?u"
    by (intro mult_right_mono) auto
  then show ?thesis using assms by (simp add: fl_eq p2_add mult.commute)
qed

lemma fl_lower:
  assumes "0 < x" "- 1022 \<le> ilog2 x"
  shows "2 powi (ulp_exp x + 52) \<le> fl x"
proof -
  let ?u = "(2::rat) powi (ulp_exp x)"
  have e: "ulp_exp x + 52 = ilog2 x" using assms by (simp add: ulp_exp_def)
  have "2 powi (ulp_exp x + 52) \<le> x" using ilog2_bounds(1) [OF assms(1)] e by simp
  then have "2 powi (ulp_exp x + 52) / ?u \<le> x / ?u" by (simp add: divide_right_mono)
  moreover have "2 powi (ulp_exp x + 52) / ?u = of_int (2 ^ 52)" by (simp add: p2_add)
  ultimately have "of_int (2 ^ 52) \<le> x / ?u" by simp
  then have "2 ^ 52 \<le> rne (x / ?u)" using rne_mono rne_of_int by metis
  then have "(of_int (2 ^ 52) :: rat) \<le> of_int (rne (x / ?u))" by (simp only: of_int_le_iff)
  then have "of_int (2 ^ 52) * ?u \<le> of_int (rne (x / ?u)) * ?u"
    by (intro mult_right_mono) auto
  then show ?thesis using assms by (simp add: fl_eq p2_add mult.commute)
qed

lemma fl_mono:
  assumes "0 \<le> x" "x \<le> y"
  shows "fl x \<le> fl y"
proof (cases "x = 0")
  case True
  then show ?thesis using assms fl_nonneg by simp
next
  case False
  then have x: "0 < x" and y: "0 < y" using assms by auto
  have le: "ulp_exp x \<le> ulp_exp y" using x assms(2) by (rule ulp_exp_mono)
  show ?thesis
  proof (cases "ulp_exp x = ulp_exp y")
    case True
    let ?u = "(2::rat) powi (ulp_exp y)"
    have "x / ?u \<le> y / ?u" using assms(2) by (simp add: divide_right_mono)
    then have "rne (x / ?u) \<le> rne (y / ?u)" by (rule rne_mono)
    then have "(of_int (rne (x / ?u)) :: rat) * ?u \<le> of_int (rne (y / ?u)) * ?u"
      by (intro mult_right_mono) auto
    then show ?thesis using x y True by (simp add: fl_eq)
  next
    case False
    with le have lt: "ulp_exp x < ulp_exp y" by simp
    then have iy: "- 1022 \<le> ilog2 y" using x y by (auto simp: ulp_exp_def)
    have "fl x \<le> 2 powi (ulp_exp x + 53)" using x by (rule fl_upper)
    also have "\<dots> \<le> 2 powi (ulp_exp y + 52)" using lt by (simp add: p2_le_iff)
    also have "\<dots> \<le> fl y" using y iy(1) by (rule fl_lower)
    finally show ?thesis .
  qed
qed

lemma fl_exact:
  assumes "x / 2 powi (ulp_exp x) = of_int k"
  shows "fl x = x"
proof (cases "x = 0")
  case False
  have "fl x = of_int k * 2 powi (ulp_exp x)" using False assms by (simp add: fl_eq)
  also have "\<dots> = x" using assms [symmetric] by simp
  finally show ?thesis .
qed simp

lemma fl_dyadic:
  assumes "0 < k" "k < 2 ^ 53" "- 1074 \<le> j"
  shows "fl (of_int k * 2 powi j) = of_int k * 2 powi j"
proof -
  let ?x = "(of_int k :: rat) * 2 powi j"
  have x: "0 < ?x" using assms(1) by simp
  have "?x < of_int (2 ^ 53) * 2 powi j"
    using assms(2) by (intro mult_strict_right_mono) (simp_all only: of_int_less_iff p2_pos)
  also have "\<dots> = 2 powi (53 + j)" by (simp add: p2_add)
  finally have "2 powi (ilog2 ?x) < (2::rat) powi (53 + j)"
    using ilog2_bounds(1) [OF x] by simp
  then have "ilog2 ?x < 53 + j" by (simp only: p2_less_iff)
  then have d: "0 \<le> j - ulp_exp ?x" using assms(3) x by (simp add: ulp_exp_def)
  have "?x / 2 powi (ulp_exp ?x) = of_int k * 2 powi (j - ulp_exp ?x)" by (simp add: p2_diff)
  also have "\<dots> = of_int (k * 2 ^ nat (j - ulp_exp ?x))" using d by (simp add: power_int_def)
  finally show ?thesis by (rule fl_exact)
qed

lemma fl_of_nat:
  assumes "n < 2 ^ 53"
  shows "fl (of_nat n) = of_nat n"
proof (cases "n = 0")
  case False
  have "fl (of_int (int n) * 2 powi 0) = of_int (int n) * 2 powi 0"
    using False assms by (intro fl_dyadic) auto
  then show ?thesis by simp
qed simp

lemma fl_half:
  assumes "n < 2 ^ 52"
  shows "fl (of_nat n + 1 / 2) = of_nat n + 1 / 2"
proof -
  have eq: "(of_int (2 * int n + 1) :: rat) * 2 powi (- 1) = of_nat n + 1 / 2"
    by (simp add: power_int_minus field_simps)
  have "fl (of_int (2 * int n + 1) * 2 powi (- 1)) = of_int (2 * int n + 1) * 2 powi (- 1)"
    using assms by (intro fl_dyadic) auto
  then show ?thesis unfolding eq .
qed

lemma fl_p2:
  assumes "- 1074 \<le> j"
  shows "fl (2 powi j) = 2 powi j"
  using fl_dyadic [of 1 j] assms by simp

lemma fl_err:
  assumes "2 powi (- 1022) \<le> x"
  shows "\<bar>fl x - x\<bar> \<le> x / 2 ^ 53"
proof -
  let ?u = "(2::rat) powi (ulp_exp x)"
  have x: "0 < x" using assms by (meson less_le_trans p2_pos)
  have "2 powi (- 1022) < (2::rat) powi (ilog2 x + 1)"
    by (rule le_less_trans [OF assms ilog2_bounds(2) [OF x]])
  then have "- 1022 < ilog2 x + 1" by (simp only: p2_less_iff)
  then have e: "ulp_exp x + 52 = ilog2 x" using x by (simp add: ulp_exp_def)
  have "fl x - x = (of_int (rne (x / ?u)) - x / ?u) * ?u"
    using x by (simp add: fl_eq left_diff_distrib)
  then have "\<bar>fl x - x\<bar> = \<bar>of_int (rne (x / ?u)) - x / ?u\<bar> * ?u"
    by (simp add: abs_mult)
  also have "\<dots> \<le> (1 / 2) * ?u" by (intro mult_right_mono rne_err) simp
  also have "\<dots> = 2 powi (ulp_exp x + 52) / 2 ^ 53" by (simp add: p2_add)
  also have "\<dots> \<le> x / 2 ^ 53"
    using ilog2_bounds(1) [OF x] e by (simp add: divide_right_mono)
  finally show ?thesis .
qed

lemma rnd_fin:
  assumes "0 \<le> x" "x \<le> 2 powi 1023"
  shows "rnd x = Fin (fl x)"
proof (cases "fl x = 0")
  case True
  then show ?thesis by (simp add: rnd_def)
next
  case False
  then have y: "0 < fl x" using fl_nonneg [OF assms(1)] by simp
  have "fl x \<le> fl (2 powi 1023)" using assms by (rule fl_mono)
  also have "\<dots> = 2 powi 1023" by (rule fl_p2) simp
  finally have "(2::rat) powi (ilog2 (fl x)) \<le> 2 powi 1023"
    using ilog2_bounds(1) [OF y] by (rule order_trans [rotated])
  then have "ilog2 (fl x) \<le> 1023" by (simp only: p2_le_iff)
  then show ?thesis using y False by (simp add: rnd_def Let_def)
qed

lemma rnd_fin_nat:
  assumes "0 \<le> x" "x \<le> of_nat n" "n \<le> 2 ^ 64"
  shows "rnd x = Fin (fl x)"
proof -
  have "(of_nat n :: rat) \<le> of_nat (2 ^ 64)" using assms(3) by (simp only: of_nat_le_iff)
  also have "\<dots> = 2 powi 64" by simp
  also have "\<dots> \<le> 2 powi 1023" by (simp only: p2_le_iff)
  finally show ?thesis using assms(1,2) by (intro rnd_fin) auto
qed


section \<open>Operations on finite numbers\<close>

lemma num_eq: "num n = Fin (of_nat n)"
  by (simp add: num_def)

lemma jdiv_fin:
  assumes "0 \<le> a" "0 < b" "a / b \<le> of_nat n" "n \<le> 2 ^ 64"
  shows "jdiv (Fin a) (Fin b) = Fin (fl (a / b))"
  using assms rnd_fin_nat [of "a / b" n] by simp

lemma jmul_fin:
  assumes "0 \<le> a" "0 \<le> b" "a * b \<le> of_nat n" "n \<le> 2 ^ 64"
  shows "jmul (Fin a) (Fin b) = Fin (fl (a * b))"
  using assms rnd_fin_nat [of "a * b" n] by simp

lemma jadd_fin:
  assumes "0 \<le> a" "0 \<le> b" "a + b \<le> of_nat n" "n \<le> 2 ^ 64"
  shows "jadd (Fin a) (Fin b) = Fin (fl (a + b))"
  using assms rnd_fin_nat [of "a + b" n] by simp

lemma jadd_nat:
  assumes "m + n < 2 ^ 53"
  shows "jadd (Fin (of_nat m)) (Fin (of_nat n)) = Fin (of_nat (m + n))"
proof -
  have "rnd (of_nat (m + n)) = Fin (fl (of_nat (m + n)))"
    using assms by (intro rnd_fin_nat [where n = "m + n"]) auto
  then show ?thesis using fl_of_nat [OF assms] by simp
qed

lemma jsub_nat:
  assumes "n \<le> m" "m < 2 ^ 53"
  shows "jsub (Fin (of_nat m)) (Fin (of_nat n)) = Fin (of_nat (m - n))"
proof -
  have lt: "m - n < 2 ^ 53" using assms by simp
  have "rnd (of_nat (m - n)) = Fin (fl (of_nat (m - n)))"
    using lt by (intro rnd_fin_nat [where n = "m - n"]) auto
  then show ?thesis using fl_of_nat [OF lt] assms(1) by (simp add: jsub_def of_nat_diff)
qed

lemma js_index_nat: "i < length xs \<Longrightarrow> js_index xs (Fin (of_nat i)) = Some (xs ! i)"
  by (simp add: js_index_def)

section \<open>The lookup table\<close>

lemma fold_update_upt:
  "n \<le> length xs \<Longrightarrow> fold (\<lambda>i l. l[i := f i]) [0..<n] xs = map f [0..<n] @ drop n xs"
proof (induction n)
  case 0
  then show ?case by simp
next
  case (Suc n)
  then have n: "n < length xs" by simp
  have d: "drop n xs = xs ! n # drop (Suc n) xs" using n by (simp add: Cons_nth_drop_Suc)
  have "(map f [0..<n] @ xs ! n # drop (Suc n) xs)[n := f n]
      = map f [0..<n] @ f n # drop (Suc n) xs"
    using list_update_length [of "map f [0..<n]" "xs ! n" "drop (Suc n) xs" "f n"] by simp
  then show ?case using Suc d by simp
qed

lemma createBrightnessLUT_eq:
  assumes "charset \<noteq> []"
  shows "createBrightnessLUT charset invert =
    Inr (map (\<lambda>b. charset_at charset (char_index (length charset) invert b)) [0..<256])"
  using assms fold_update_upt [of 256 "replicate 256 None"]
  by (simp add: createBrightnessLUT_def)

lemma scaled_bounds:
  assumes "b \<le> 255"
  shows "0 \<le> fl (of_nat b / 255)" "fl (of_nat b / 255) \<le> 1"
proof -
  show "0 \<le> fl (of_nat b / 255)" by (rule fl_nonneg) simp
  have "fl (of_nat b / 255) \<le> fl (of_nat 1)" using assms by (intro fl_mono) auto
  also have "\<dots> = 1" using fl_of_nat [of 1] by simp
  finally show "fl (of_nat b / 255) \<le> 1" .
qed

lemma binary64_glyph_index_le:
  assumes "0 < N" "N < 2 ^ 53" "b \<le> 255"
  shows "binary64_glyph_index N b \<le> N - 1"
proof -
  note s = scaled_bounds [OF assms(3)]
  have e: "(of_nat N :: rat) - 1 = of_nat (N - 1)" using assms(1) by (simp add: of_nat_diff)
  have "fl (of_nat b / 255) * of_nat (N - 1) \<le> 1 * (of_nat (N - 1) :: rat)"
    using s(2) by (intro mult_right_mono) auto
  then have "fl (fl (of_nat b / 255) * of_nat (N - 1)) \<le> fl (of_nat (N - 1))"
    using s(1) by (intro fl_mono) auto
  also have "\<dots> = of_nat (N - 1)" using assms(2) by (intro fl_of_nat) simp
  finally have "\<lfloor>fl (fl (of_nat b / 255) * of_nat (N - 1))\<rfloor> \<le> int (N - 1)"
    by (simp add: floor_le_iff)
  then show ?thesis unfolding binary64_glyph_index_def e by simp
qed

lemma binary64_glyph_index_mono:
  assumes "0 < N" "a \<le> b"
  shows "binary64_glyph_index N a \<le> binary64_glyph_index N b"
proof -
  have e: "(of_nat N :: rat) - 1 = of_nat (N - 1)" using assms(1) by (simp add: of_nat_diff)
  have "fl (of_nat a / 255) \<le> fl (of_nat b / 255)" using assms(2)
    by (intro fl_mono) (auto simp: divide_right_mono)
  then have "fl (of_nat a / 255) * of_nat (N - 1) \<le> fl (of_nat b / 255) * (of_nat (N - 1) :: rat)"
    by (intro mult_right_mono) auto
  then have "fl (fl (of_nat a / 255) * of_nat (N - 1)) \<le> fl (fl (of_nat b / 255) * of_nat (N - 1))"
    by (intro fl_mono mult_nonneg_nonneg fl_nonneg) auto
  then show ?thesis unfolding binary64_glyph_index_def e by (intro nat_mono floor_mono)
qed

lemma binary64_glyph_index_0: "binary64_glyph_index N 0 = 0"
  by (simp add: binary64_glyph_index_def)

lemma binary64_glyph_index_255:
  assumes "0 < N" "N < 2 ^ 53"
  shows "binary64_glyph_index N 255 = N - 1"
proof -
  have e: "(of_nat N :: rat) - 1 = of_nat (N - 1)" using assms(1) by (simp add: of_nat_diff)
  have "fl (of_nat 255 / 255) = fl (of_nat 1)" by simp
  also have "\<dots> = 1" using fl_of_nat [of 1] by simp
  finally have one: "fl (of_nat 255 / 255) = 1" .
  have "fl (of_nat (N - 1)) = of_nat (N - 1)" using assms(2) by (intro fl_of_nat) simp
  then show ?thesis unfolding binary64_glyph_index_def e one by simp
qed

lemma char_index_eq:
  assumes "0 < N" "N < 2 ^ 53" "b \<le> 255"
  shows "char_index N invert b =
    Fin (of_nat (if invert then N - 1 - binary64_glyph_index N b else binary64_glyph_index N b))"
proof -
  note s = scaled_bounds [OF assms(3)]
  let ?q = "fl (of_nat b / 255)"
  let ?p = "fl (?q * (of_nat N - 1))"
  have e: "(of_nat N :: rat) - 1 = of_nat (N - 1)" using assms(1) by (simp add: of_nat_diff)
  have d: "jdiv (num b) (Fin 255) = Fin ?q"
    unfolding num_eq using assms(3) by (intro jdiv_fin [where n = 255]) (auto simp: field_simps)
  have m1: "jsub (num N) (Fin 1) = Fin (of_nat (N - 1))"
    unfolding num_eq using jsub_nat [of 1 N] assms by simp
  have le: "?q * of_nat (N - 1) \<le> 1 * (of_nat (N - 1) :: rat)"
    using s(2) by (intro mult_right_mono) auto
  have m: "jmul (Fin ?q) (Fin (of_nat (N - 1))) = Fin (fl (?q * of_nat (N - 1)))"
    using s(1) le assms(2) by (intro jmul_fin [where n = "N - 1"]) auto
  have nn: "0 \<le> fl (?q * of_nat (N - 1))"
    using s(1) by (intro fl_nonneg mult_nonneg_nonneg) auto
  have fl_idx: "rat_of_int \<lfloor>fl (?q * of_nat (N - 1))\<rfloor> = of_nat (binary64_glyph_index N b)"
    using nn unfolding binary64_glyph_index_def e by simp
  have ci: "js_floor (jmul (jdiv (num b) (Fin 255)) (Fin (of_nat (N - 1))))
      = Fin (of_nat (binary64_glyph_index N b))"
    unfolding d m using fl_idx by simp
  have inv: "jsub (Fin (of_nat (N - 1))) (Fin (of_nat (binary64_glyph_index N b)))
      = Fin (of_nat (N - 1 - binary64_glyph_index N b))"
    using binary64_glyph_index_le [OF assms] assms(2) by (intro jsub_nat) auto
  show ?thesis
    unfolding char_index_def Let_def m1 ci using inv by simp
qed

lemma lut_entry:
  assumes "charset \<noteq> []" "length charset < 2 ^ 53" "b \<le> 255"
  shows "charset_at charset (char_index (length charset) invert b) =
    Some [charset ! (if invert then length charset - 1 - binary64_glyph_index (length charset) b
                     else binary64_glyph_index (length charset) b)]"
proof -
  have N: "0 < length charset" using assms(1) by simp
  note le = binary64_glyph_index_le [OF N assms(2,3)]
  have "binary64_glyph_index (length charset) b < length charset" using le N by linarith
  then have "(if invert then length charset - 1 - binary64_glyph_index (length charset) b
         else binary64_glyph_index (length charset) b) < length charset"
    by auto
  then show ?thesis
    unfolding char_index_eq [OF N assms(2,3)] charset_at_def by (simp add: js_index_nat)
qed

lemma createBrightnessLUT_wf:
  assumes "charset \<noteq> []" "length charset < 2 ^ 53"
    "createBrightnessLUT charset invert = Inr lut"
  shows "wf_lut lut"
proof -
  let ?f = "\<lambda>b. charset_at charset (char_index (length charset) invert b)"
  have lut: "lut = map ?f [0..<256]"
    using assms(3) createBrightnessLUT_eq [OF assms(1), of invert] by simp
  have "is_glyph (?f b)" if "b < 256" for b
  proof -
    have "b \<le> 255" using that by simp
    then show ?thesis using lut_entry [OF assms(1,2), of b invert] by (simp add: is_glyph_def)
  qed
  then show ?thesis unfolding lut wf_lut_def by (simp add: list_all_length del: upt_Suc)
qed

text \<open>
  Claim C5. The empty charset is rejected, whatever \<open>invert\<close> is, and the charset \<open>x\<close>
  gives the table whose 256 entries are all \<open>x\<close>.
\<close>

theorem createBrightnessLUT_empty_singleton:
  "createBrightnessLUT [] invert = Inl (InvalidArgument ''Charset cannot be empty'')
   \<and> createBrightnessLUT ''x'' False = Inr (replicate 256 (Some ''x''))"
proof -
  have "map (\<lambda>b. charset_at ''x'' (char_index (length ''x'') False b)) [0..<256]
      = replicate 256 (Some ''x'')"
  proof (rule nth_equalityI)
    show "length (map (\<lambda>b. charset_at ''x'' (char_index (length ''x'') False b)) [0..<256])
        = length (replicate 256 (Some ''x''))" by simp
  next
    fix i assume "i < length (map (\<lambda>b. charset_at ''x'' (char_index (length ''x'') False b)) [0..<256])"
    then have i: "i \<le> 255" by simp
    have "binary64_glyph_index (length ''x'') i \<le> length ''x'' - 1"
      using i by (intro binary64_glyph_index_le) auto
    then have z: "binary64_glyph_index (length ''x'') i = 0" by simp
    have "charset_at ''x'' (char_index (length ''x'') False i) = Some ''x''"
      using lut_entry [of "''x''" i False] i z by simp
    then show "map (\<lambda>b. charset_at ''x'' (char_index (length ''x'') False b)) [0..<256] ! i
        = replicate 256 (Some ''x'') ! i" using i by (simp del: upt_Suc)
  qed
  then show ?thesis
    using createBrightnessLUT_eq [of "''x''" False] by (simp add: createBrightnessLUT_def)
qed

text \<open>
  Claim C9. Without inversion, entry 0 of the table is the first glyph of the charset,
  entry 255 is the last one, and the glyph index does not decrease as the luminance grows.
\<close>

theorem createBrightnessLUT_monotone:
  assumes "charset \<noteq> []" "length charset < 2 ^ 53"
  shows "\<exists>lut. createBrightnessLUT charset False = Inr lut
    \<and> lut ! 0 = Some [hd charset] \<and> lut ! 255 = Some [last charset]
    \<and> (\<forall>a b. a \<le> b \<and> b \<le> 255 \<longrightarrow>
         (\<exists>i j. char_index (length charset) False a = Fin (of_nat i)
              \<and> char_index (length charset) False b = Fin (of_nat j)
              \<and> lut ! a = Some [charset ! i] \<and> lut ! b = Some [charset ! j]
              \<and> i \<le> j))"
proof -
  let ?N = "length charset"
  let ?lut = "map (\<lambda>b. charset_at charset (char_index ?N False b)) [0..<256]"
  have N: "0 < ?N" using assms(1) by simp
  have at: "?lut ! b = Some [charset ! binary64_glyph_index ?N b]" if "b \<le> 255" for b
    using lut_entry [OF assms that, of False] that by (simp del: upt_Suc)
  have ci: "char_index ?N False b = Fin (of_nat (binary64_glyph_index ?N b))" if "b \<le> 255" for b
    using char_index_eq [OF N assms(2) that, of False] by simp
  have first: "?lut ! 0 = Some [hd charset]"
    using at [of 0] assms(1) by (simp add: binary64_glyph_index_0 hd_conv_nth del: upt_Suc)
  have lst: "?lut ! 255 = Some [last charset]"
    using at [of 255] assms(1) binary64_glyph_index_255 [OF N assms(2)]
    by (simp add: last_conv_nth del: upt_Suc)
  have mono: "\<exists>i j. char_index ?N False a = Fin (of_nat i)
              \<and> char_index ?N False b = Fin (of_nat j)
              \<and> ?lut ! a = Some [charset ! i] \<and> ?lut ! b = Some [charset ! j]
              \<and> i \<le> j" if "a \<le> b" "b \<le> 255" for a b
  proof -
    have a: "a \<le> 255" using that by simp
    show ?thesis
      using ci [OF a] ci [OF that(2)] at [OF a] at [OF that(2)]
        binary64_glyph_index_mono [OF N that(1)] by blast
  qed
  show ?thesis
    unfolding createBrightnessLUT_eq [OF assms(1)] using first lst mono by blast
qed

theorem createBrightnessLUT_monotone_witness:
  "\<exists>lut. createBrightnessLUT ''ab'' False = Inr lut
    \<and> lut ! 0 = Some [hd ''ab''] \<and> lut ! 255 = Some [last ''ab'']
    \<and> (\<forall>a b. a \<le> b \<and> b \<le> 255 \<longrightarrow>
         (\<exists>i j. char_index (length ''ab'') False a = Fin (of_nat i)
              \<and> char_index (length ''ab'') False b = Fin (of_nat j)
              \<and> lut ! a = Some [''ab'' ! i] \<and> lut ! b = Some [''ab'' ! j]
              \<and> i \<le> j))"
  using createBrightnessLUT_monotone [of "''ab''"] by simp


section \<open>Cells of the grid\<close>

lemma js_range_nat: "js_range (Fin (of_nat a)) (Fin (of_nat b)) = [a..<b]"
  by (simp add: js_range_def)

lemma of_nat_le_p2:
  assumes "n \<le> 2 ^ k"
  shows "(of_nat n :: rat) \<le> 2 ^ k"
proof -
  have "(of_nat n :: rat) \<le> of_nat (2 ^ k)" using assms by (simp only: of_nat_le_iff)
  then show ?thesis by simp
qed

lemma cell_edge:
  assumes "w < 2 ^ 32" "0 < c" "c < 2 ^ 53" "k \<le> c"
  shows "\<exists>m\<le>w. js_floor (jmul (num k) (jdiv (num w) (num c))) = Fin (of_nat m)"
proof -
  let ?cw = "fl (of_nat w / of_nat c)"
  have c0: "(0::rat) < of_nat c" using assms(2) by simp
  have c1: "(1::rat) \<le> of_nat c" using assms(2) by simp
  have q_le: "(of_nat w :: rat) / of_nat c \<le> of_nat w"
    using c1 by (simp add: divide_le_eq mult_le_cancel_left1)
  have w64: "w \<le> 2 ^ 64" using assms(1) by simp
  have d: "jdiv (num w) (num c) = Fin ?cw"
    unfolding num_eq using c0 q_le w64 by (intro jdiv_fin [where n = w]) auto
  have nn: "0 \<le> ?cw" by (intro fl_nonneg) simp
  have up: "of_nat c * ?cw \<le> of_nat w + 1 / 2"
  proof (cases "w = 0")
    case True
    then show ?thesis by simp
  next
    case False
    then have w1: "(1::rat) \<le> of_nat w" by simp
    have "(2::rat) powi (- 1022) \<le> 2 powi (- 53)" by (simp only: p2_le_iff)
    also have "\<dots> = 1 / 2 ^ 53" by (simp add: power_int_minus_divide)
    also have "\<dots> \<le> 1 / of_nat c"
      using c0 of_nat_le_p2 [of c 53] assms(3) by (intro divide_left_mono) auto
    also have "\<dots> \<le> of_nat w / of_nat c" using w1 c0 by (intro divide_right_mono) auto
    finally have lo: "2 powi (- 1022) \<le> (of_nat w :: rat) / of_nat c" .
    have "?cw \<le> of_nat w / of_nat c + of_nat w / of_nat c / 2 ^ 53"
      using fl_err [OF lo] by (simp add: abs_le_iff)
    then have "of_nat c * ?cw \<le> of_nat c * (of_nat w / of_nat c + of_nat w / of_nat c / 2 ^ 53)"
      using c0 by (intro mult_left_mono) auto
    also have "\<dots> = of_nat w + of_nat w / 2 ^ 53" using c0 by (simp add: field_simps)
    also have "\<dots> \<le> of_nat w + 1 / 2"
      using of_nat_le_p2 [of w 52] assms(1) by simp
    finally show ?thesis .
  qed
  have "of_nat k * ?cw \<le> of_nat c * ?cw" using assms(4) nn by (intro mult_right_mono) auto
  with up have le: "of_nat k * ?cw \<le> of_nat w + 1 / 2" by simp
  have le': "of_nat k * ?cw \<le> of_nat (w + 1)" using le by simp
  have w64': "w + 1 \<le> 2 ^ 64" using assms(1) by simp
  have k0: "0 \<le> of_nat k * ?cw" using nn by simp
  have m: "jmul (num k) (Fin ?cw) = Fin (fl (of_nat k * ?cw))"
    unfolding num_eq using nn le' w64' by (intro jmul_fin [where n = "w + 1"]) auto
  have "fl (of_nat k * ?cw) \<le> fl (of_nat w + 1 / 2)" using le k0 by (intro fl_mono) auto
  also have "\<dots> = of_nat w + 1 / 2" using assms(1) by (intro fl_half) simp
  finally have f: "fl (of_nat k * ?cw) \<le> of_nat w + 1 / 2" .
  have f0: "0 \<le> fl (of_nat k * ?cw)" using k0 by (rule fl_nonneg)
  define z where "z = \<lfloor>fl (of_nat k * ?cw)\<rfloor>"
  have z0: "0 \<le> z" using f0 by (simp add: z_def)
  have "fl (of_nat k * ?cw) < of_int (int w) + 1" using f by simp
  then have zw: "z \<le> int w" unfolding z_def by (simp only: floor_le_iff)
  have "js_floor (jmul (num k) (jdiv (num w) (num c))) = Fin (of_int z)"
    unfolding d m z_def by simp
  also have "of_int z = (of_nat (nat z) :: rat)" using z0 by simp
  finally show ?thesis using zw z0 by (intro exI [of _ "nat z"]) auto
qed

section \<open>Channel sums\<close>

lemma nat_upto_iff: "nat_upto x m \<longleftrightarrow> (\<exists>s\<le>m. x = Fin (of_nat s))"
proof
  assume "nat_upto x m"
  then obtain q where x: "x = Fin q" and q: "0 \<le> q" "of_int \<lfloor>q\<rfloor> = q" "q \<le> of_nat m"
    by (auto simp: nat_upto_def split: jsnum.splits)
  have "q = of_nat (nat \<lfloor>q\<rfloor>)" using q(1,2) by (metis of_nat_nat zero_le_floor)
  moreover have "nat \<lfloor>q\<rfloor> \<le> m" using q(3) by (simp add: floor_le_iff nat_le_iff)
  ultimately show "\<exists>s\<le>m. x = Fin (of_nat s)" using x by blast
next
  assume "\<exists>s\<le>m. x = Fin (of_nat s)"
  then show "nat_upto x m" by (auto simp: nat_upto_def)
qed

lemma px_ok:
  assumes "i < length d"
  shows "\<exists>u\<le>255. px d i = Fin (of_nat u)"
proof -
  have "unat (d ! i) < 2 ^ LENGTH(8)" by (rule unsigned_less)
  then have "unat (d ! i) \<le> 255" by simp
  then show ?thesis using assms by (auto simp: px_def num_eq)
qed

lemma index_lt:
  assumes "y < h" "x < (w::nat)"
  shows "(y * w + x) * 4 + 2 < 4 * w * h"
proof -
  have "Suc y * w \<le> h * w" using assms(1) by (intro mult_le_mono1) simp
  then have "y * w + x < h * w" using assms(2) by simp
  then show ?thesis by (simp add: mult.commute)
qed

lemma jadd_upto:
  assumes "nat_upto t (255 * n)" "u \<le> 255" "n < 2 ^ 45"
  shows "nat_upto (jadd t (Fin (of_nat u))) (255 * (n + 1))"
proof -
  from assms(1) obtain s where s: "s \<le> 255 * n" "t = Fin (of_nat s)"
    by (auto simp: nat_upto_iff)
  have "s + u < 2 ^ 53" using s(1) assms(2,3) by simp
  then have "jadd t (Fin (of_nat u)) = Fin (of_nat (s + u))" unfolding s(2) by (rule jadd_nat)
  moreover have "s + u \<le> 255 * (n + 1)" using s(1) assms(2) by simp
  ultimately show ?thesis unfolding nat_upto_iff by blast
qed

lemma add_pixel_ok:
  assumes "wf_image img" "y < height img" "x < width img" "sums_ok t"
    "pixel_count t < width img * height img"
  shows "sums_ok (add_pixel img y x t) \<and> pixel_count (add_pixel img y x t) = pixel_count t + 1"
proof -
  obtain tR tG tB n where t: "t = (tR, tG, tB, n)" by (cases t)
  have len: "length (data img) = 4 * width img * height img"
    and n: "n < 2 ^ 45" using assms(1,5) by (auto simp: wf_image_def t pixel_count_def)
  let ?i = "(y * width img + x) * 4"
  have i: "?i + 2 < length (data img)" unfolding len using assms(2,3) by (rule index_lt)
  then have "?i < length (data img)" "?i + 1 < length (data img)" by simp_all
  with i obtain uR uG uB where u: "uR \<le> 255" "px (data img) ?i = Fin (of_nat uR)"
    "uG \<le> 255" "px (data img) (?i + 1) = Fin (of_nat uG)"
    "uB \<le> 255" "px (data img) (?i + 2) = Fin (of_nat uB)"
    using px_ok by meson
  have ok: "nat_upto tR (255 * n)" "nat_upto tG (255 * n)" "nat_upto tB (255 * n)"
    using assms(4) by (auto simp: sums_ok_def t)
  show ?thesis
    unfolding add_pixel_def t Let_def u
    using jadd_upto [OF ok(1) u(1) n] jadd_upto [OF ok(2) u(3) n] jadd_upto [OF ok(3) u(5) n]
    by (simp add: sums_ok_def pixel_count_def)
qed

lemma fold_add_pixel_ok:
  assumes "wf_image img" "y < height img" "\<forall>x\<in>set xs. x < width img" "sums_ok t"
    "pixel_count t + length xs \<le> width img * height img"
  shows "sums_ok (fold (add_pixel img y) xs t)
    \<and> pixel_count (fold (add_pixel img y) xs t) = pixel_count t + length xs"
  using assms(3-5)
proof (induction xs arbitrary: t)
  case Nil
  then show ?case by simp
next
  case (Cons x xs)
  have x: "x < width img" using Cons.prems(1) by simp
  have c: "pixel_count t < width img * height img" using Cons.prems(3) by simp
  note s = add_pixel_ok [OF assms(1,2) x Cons.prems(2) c]
  have "sums_ok (fold (add_pixel img y) xs (add_pixel img y x t))
    \<and> pixel_count (fold (add_pixel img y) xs (add_pixel img y x t))
        = pixel_count (add_pixel img y x t) + length xs"
    using Cons.prems s by (intro Cons.IH) auto
  then show ?case using s by simp
qed

lemma fold_rows_ok:
  assumes "wf_image img" "\<forall>y\<in>set ys. y < height img" "\<forall>x\<in>set xs. x < width img" "sums_ok t"
    "pixel_count t + length ys * length xs \<le> width img * height img"
  shows "sums_ok (fold (\<lambda>y. fold (add_pixel img y) xs) ys t)
    \<and> pixel_count (fold (\<lambda>y. fold (add_pixel img y) xs) ys t)
        = pixel_count t + length ys * length xs"
  using assms(2,4,5)
proof (induction ys arbitrary: t)
  case Nil
  then show ?case by simp
next
  case (Cons y ys)
  have y: "y < height img" using Cons.prems(1) by simp
  have c: "pixel_count t + length xs \<le> width img * height img" using Cons.prems(3) by simp
  note s = fold_add_pixel_ok [OF assms(1) y assms(3) Cons.prems(2) c]
  have "sums_ok (fold (\<lambda>y. fold (add_pixel img y) xs) ys (fold (add_pixel img y) xs t))
    \<and> pixel_count (fold (\<lambda>y. fold (add_pixel img y) xs) ys (fold (add_pixel img y) xs t))
        = pixel_count (fold (add_pixel img y) xs t) + length ys * length xs"
    using Cons.prems s by (intro Cons.IH) auto
  then show ?case using s by simp
qed

lemma grid_cell_ok:
  assumes "wf_image img" "cols < 2 ^ 53" "rows < 2 ^ 53" "row < rows" "col < cols"
  shows "sums_ok (grid_cell img cols rows row col)"
proof -
  have w: "width img < 2 ^ 32" and h: "height img < 2 ^ 32"
    using assms(1) by (auto simp: wf_image_def)
  have c: "0 < cols" "col \<le> cols" "col + 1 \<le> cols" and r: "0 < rows" "row \<le> rows" "row + 1 \<le> rows"
    using assms(4,5) by auto
  obtain a where a: "a \<le> width img"
    "js_floor (jmul (num col) (jdiv (num (width img)) (num cols))) = Fin (of_nat a)"
    using cell_edge [OF w c(1) assms(2) c(2)] by blast
  obtain b where b: "b \<le> width img"
    "js_floor (jmul (num (col + 1)) (jdiv (num (width img)) (num cols))) = Fin (of_nat b)"
    using cell_edge [OF w c(1) assms(2) c(3)] by blast
  obtain p where p: "p \<le> height img"
    "js_floor (jmul (num row) (jdiv (num (height img)) (num rows))) = Fin (of_nat p)"
    using cell_edge [OF h r(1) assms(3) r(2)] by blast
  obtain q where q: "q \<le> height img"
    "js_floor (jmul (num (row + 1)) (jdiv (num (height img)) (num rows))) = Fin (of_nat q)"
    using cell_edge [OF h r(1) assms(3) r(3)] by blast
  have "length [p..<q] * length [a..<b] \<le> height img * width img"
    using b(1) q(1) by (intro mult_le_mono) auto
  then have n: "pixel_count (Fin 0, Fin 0, Fin 0, 0) + length [p..<q] * length [a..<b]
      \<le> width img * height img"
    by (simp add: pixel_count_def mult.commute)
  have z: "sums_ok (Fin 0, Fin 0, Fin 0, 0)" by (simp add: sums_ok_def nat_upto_def)
  have "sums_ok (fold (\<lambda>y. fold (add_pixel img y) [a..<b]) [p..<q] (Fin 0, Fin 0, Fin 0, 0))"
    using fold_rows_ok [OF assms(1) _ _ z n] b(1) q(1) by auto
  then show ?thesis
    unfolding grid_cell_def cell_sums_def Let_def a(2) b(2) p(2) q(2) cell_totals_def js_range_nat .
qed

section \<open>Means and luminance\<close>

lemma mean_bounds:
  assumes "nat_upto t (255 * n)" "0 < n"
  shows "\<exists>q. jdiv t (num n) = Fin q \<and> 0 \<le> q \<and> q \<le> 255"
proof -
  from assms(1) obtain s where s: "s \<le> 255 * n" "t = Fin (of_nat s)"
    by (auto simp: nat_upto_iff)
  have n0: "(0::rat) < of_nat n" using assms(2) by simp
  have "(of_nat s :: rat) \<le> of_nat (255 * n)" using s(1) by (simp only: of_nat_le_iff)
  then have le: "(of_nat s :: rat) / of_nat n \<le> 255" using n0 by (simp add: divide_le_eq)
  have d: "jdiv t (num n) = Fin (fl (of_nat s / of_nat n))"
    unfolding s(2) num_eq using n0 le by (intro jdiv_fin [where n = 255]) auto
  have "fl (of_nat s / of_nat n) \<le> fl (of_nat 255)" using le by (intro fl_mono) auto
  also have "\<dots> = 255" using fl_of_nat [of 255] by simp
  finally have "fl (of_nat s / of_nat n) \<le> 255" .
  moreover have "0 \<le> fl (of_nat s / of_nat n)" by (intro fl_nonneg) simp
  ultimately show ?thesis using d by blast
qed

lemma weight_fin:
  assumes "0 \<le> x" "x \<le> 1"
  shows "rnd x = Fin (fl x)" "0 \<le> fl x" "fl x \<le> 1"
proof -
  show "rnd x = Fin (fl x)" using assms by (intro rnd_fin_nat [where n = 1]) auto
  show "0 \<le> fl x" using assms(1) by (rule fl_nonneg)
  have "fl x \<le> fl (of_nat 1)" using assms by (intro fl_mono) auto
  then show "fl x \<le> 1" using fl_of_nat [of 1] by simp
qed

lemma white_luminance:
  "fl (fl (fl (255 * fl (2126 / 10000)) + fl (255 * fl (7152 / 10000)))
         + fl (255 * fl (722 / 10000))) < 511 / 2"
  by code_simp

lemma luminance_bounds:
  assumes "0 \<le> r" "r \<le> 255" "0 \<le> g" "g \<le> 255" "0 \<le> b" "b \<le> 255"
  shows "\<exists>L\<le>255. calculateLuminance (Fin r) (Fin g) (Fin b) = Fin (of_nat L)"
proof -
  let ?wR = "fl (2126 / 10000)" and ?wG = "fl (7152 / 10000)" and ?wB = "fl (722 / 10000)"
  note wR = weight_fin [of "2126 / 10000"] and wG = weight_fin [of "7152 / 10000"]
    and wB = weight_fin [of "722 / 10000"]
  have R: "0 \<le> r * ?wR" "r * ?wR \<le> 255 * ?wR" "r * ?wR \<le> 255"
    using assms(1,2) wR(2,3) by (auto intro: mult_right_mono mult_mono [of r 255 ?wR 1, simplified])
  have G: "0 \<le> g * ?wG" "g * ?wG \<le> 255 * ?wG" "g * ?wG \<le> 255"
    using assms(3,4) wG(2,3) by (auto intro: mult_right_mono mult_mono [of g 255 ?wG 1, simplified])
  have B: "0 \<le> b * ?wB" "b * ?wB \<le> 255 * ?wB" "b * ?wB \<le> 255"
    using assms(5,6) wB(2,3) by (auto intro: mult_right_mono mult_mono [of b 255 ?wB 1, simplified])
  have f255: "fl 255 = 255" using fl_of_nat [of 255] by simp
  have mR: "jmul (Fin r) LUMINANCE_WEIGHTS_R = Fin (fl (r * ?wR))"
    unfolding LUMINANCE_WEIGHTS_R_def using wR(1) assms(1) wR(2) R(3)
    by (simp del: jmul.simps add: jmul_fin [where n = 255])
  have mG: "jmul (Fin g) LUMINANCE_WEIGHTS_G = Fin (fl (g * ?wG))"
    unfolding LUMINANCE_WEIGHTS_G_def using wG(1) assms(3) wG(2) G(3)
    by (simp del: jmul.simps add: jmul_fin [where n = 255])
  have mB: "jmul (Fin b) LUMINANCE_WEIGHTS_B = Fin (fl (b * ?wB))"
    unfolding LUMINANCE_WEIGHTS_B_def using wB(1) assms(5) wB(2) B(3)
    by (simp del: jmul.simps add: jmul_fin [where n = 255])
  have fR: "0 \<le> fl (r * ?wR)" "fl (r * ?wR) \<le> fl (255 * ?wR)" "fl (r * ?wR) \<le> 255"
    using R fl_mono [of "r * ?wR" 255] f255 by (auto intro: fl_nonneg fl_mono)
  have fG: "0 \<le> fl (g * ?wG)" "fl (g * ?wG) \<le> fl (255 * ?wG)" "fl (g * ?wG) \<le> 255"
    using G fl_mono [of "g * ?wG" 255] f255 by (auto intro: fl_nonneg fl_mono)
  have fB: "0 \<le> fl (b * ?wB)" "fl (b * ?wB) \<le> fl (255 * ?wB)" "fl (b * ?wB) \<le> 255"
    using B fl_mono [of "b * ?wB" 255] f255 by (auto intro: fl_nonneg fl_mono)
  let ?s1 = "fl (r * ?wR) + fl (g * ?wG)"
  have s1: "0 \<le> ?s1" "?s1 \<le> fl (255 * ?wR) + fl (255 * ?wG)" "?s1 \<le> of_nat 510"
    using fR fG by auto
  have a1: "jadd (Fin (fl (r * ?wR))) (Fin (fl (g * ?wG))) = Fin (fl ?s1)"
    using fR(1) fG(1) s1(3) by (intro jadd_fin [where n = 510]) auto
  have f510: "fl (of_nat 510) = of_nat 510" by (intro fl_of_nat) simp
  have f1: "0 \<le> fl ?s1" "fl ?s1 \<le> fl (fl (255 * ?wR) + fl (255 * ?wG))" "fl ?s1 \<le> of_nat 510"
    using s1 fl_mono [of ?s1 "of_nat 510"] f510 by (auto intro: fl_nonneg fl_mono)
  let ?s2 = "fl ?s1 + fl (b * ?wB)"
  have s2: "0 \<le> ?s2" "?s2 \<le> fl (fl (255 * ?wR) + fl (255 * ?wG)) + fl (255 * ?wB)"
    "?s2 \<le> of_nat 765"
    using f1 fB by auto
  have a2: "jadd (Fin (fl ?s1)) (Fin (fl (b * ?wB))) = Fin (fl ?s2)"
    using f1(1) fB(1) s2(3) by (intro jadd_fin [where n = 765]) auto
  have "fl ?s2 \<le> fl (fl (fl (255 * ?wR) + fl (255 * ?wG)) + fl (255 * ?wB))"
    using s2(1,2) by (rule fl_mono)
  then have up: "fl ?s2 < 511 / 2" using white_luminance by simp
  have lo: "0 \<le> fl ?s2" using s2(1) by (rule fl_nonneg)
  define z where "z = \<lfloor>fl ?s2 + 1 / 2\<rfloor>"
  have z0: "0 \<le> z" using lo by (simp add: z_def)
  have "fl ?s2 + 1 / 2 < of_int 255 + 1" using up by simp
  then have z1: "z \<le> 255" unfolding z_def by (simp only: floor_le_iff)
  have "calculateLuminance (Fin r) (Fin g) (Fin b) = Fin (of_int z)"
    unfolding calculateLuminance_def mR mG mB a1 a2 z_def by simp
  also have "of_int z = (of_nat (nat z) :: rat)" using z0 by simp
  finally show ?thesis using z0 z1 by (intro exI [of _ "nat z"]) auto
qed

lemma cell_luminance_ok:
  assumes "sums_ok t" "0 < pixel_count t"
  shows "\<exists>L\<le>255. cell_luminance t = Fin (of_nat L)"
proof -
  obtain tR tG tB n where t: "t = (tR, tG, tB, n)" by (cases t)
  have n: "0 < n" using assms(2) by (simp add: t pixel_count_def)
  have ok: "nat_upto tR (255 * n)" "nat_upto tG (255 * n)" "nat_upto tB (255 * n)"
    using assms(1) by (auto simp: sums_ok_def t)
  obtain r g b where m: "jdiv tR (num n) = Fin r" "0 \<le> r" "r \<le> 255"
    "jdiv tG (num n) = Fin g" "0 \<le> g" "g \<le> 255"
    "jdiv tB (num n) = Fin b" "0 \<le> b" "b \<le> 255"
    using mean_bounds [OF ok(1) n] mean_bounds [OF ok(2) n] mean_bounds [OF ok(3) n] by blast
  show ?thesis
    unfolding cell_luminance_def t using luminance_bounds [OF m(2,3,5,6,8,9)] by (simp add: m)
qed


section \<open>The loops of the conversion\<close>

lemma cell_step_eq:
  "cell_step img lut colorMode cw ch row col (rowString, rowColor) =
    (rowString @ cell_text lut (cell_sums img cw ch row col),
     if colorMode \<and> 0 < pixel_count (cell_sums img cw ch row col)
     then cell_rgb (cell_sums img cw ch row col) else rowColor)"
  by (cases "cell_sums img cw ch row col")
    (simp add: cell_step_def cell_text_def cell_rgb_def cell_luminance_def pixel_count_def Let_def)

lemma fold_cell_step:
  "fold (cell_step img lut colorMode cw ch row) cs (rowString, rowColor) =
    (rowString @ concat (map (\<lambda>col. cell_text lut (cell_sums img cw ch row col)) cs),
     fold (\<lambda>col rc. if colorMode \<and> 0 < pixel_count (cell_sums img cw ch row col)
                      then cell_rgb (cell_sums img cw ch row col) else rc) cs rowColor)"
  by (induction cs arbitrary: rowString rowColor) (simp_all add: cell_step_eq)

lemma row_step_eq:
  "row_step img cols lut colorMode (jdiv (num (width img)) (num cols))
      (jdiv (num (height img)) (num rows)) row (a, cs) =
    (a @ row_text img cols rows lut row @ [CHR 0x0A],
     if colorMode then cs @ [row_color img cols rows row] else cs)"
  unfolding row_text_def row_color_def grid_cell_def
  by (simp add: row_step_def fold_cell_step newline_def)

lemma fold_row_step:
  "fold (row_step img cols lut colorMode (jdiv (num (width img)) (num cols))
      (jdiv (num (height img)) (num rows))) rs (a, cs) =
    (a @ concat (map (\<lambda>row. row_text img cols rows lut row @ [CHR 0x0A]) rs),
     if colorMode then cs @ map (row_color img cols rows) rs else cs)"
  by (induction rs arbitrary: a cs) (simp_all add: row_step_eq)

lemma imageDataToAscii_eq:
  "imageDataToAscii img cols rows lut colorMode =
    \<lparr>ascii = concat (map (\<lambda>row. row_text img cols rows lut row @ [CHR 0x0A]) [0..<rows]),
     colors = (if colorMode then Some (map (row_color img cols rows) [0..<rows]) else None)\<rparr>"
  by (simp add: imageDataToAscii_def Let_def fold_row_step)

lemma fold_keep:
  "\<forall>x\<in>set xs. \<not> P x \<Longrightarrow> fold (\<lambda>x r. if P x then f x else r) xs r = r"
  by (induction xs arbitrary: r) simp_all

lemma fold_last_hit:
  assumes "P c" "\<forall>x\<in>set zs. \<not> P x"
  shows "fold (\<lambda>x r. if P x then f x else r) (ys @ c # zs) r = f c"
  using assms by (simp add: fold_keep)

lemma row_color_empty:
  assumes "\<forall>col<cols. pixel_count (grid_cell img cols rows row col) = 0"
  shows "row_color img cols rows row = ''''"
  unfolding row_color_def using assms by (intro fold_keep) simp

lemma row_color_last:
  assumes "col < cols" "0 < pixel_count (grid_cell img cols rows row col)"
    "\<forall>c. col < c \<and> c < cols \<longrightarrow> pixel_count (grid_cell img cols rows row c) = 0"
  shows "row_color img cols rows row = cell_rgb (grid_cell img cols rows row col)"
proof -
  have split: "[0..<cols] = [0..<col] @ col # [Suc col..<cols]"
    using assms(1) by (metis le0 upt_add_eq_append upt_conv_Cons less_imp_le_nat add_diff_inverse_nat
        not_less_iff_gr_or_eq le_add_diff_inverse)
  show ?thesis
    unfolding row_color_def split using assms(2,3)
    by (intro fold_last_hit [where P = "\<lambda>c. 0 < pixel_count (grid_cell img cols rows row c)"]) auto
qed

lemma length_concat_unit:
  "\<forall>x\<in>set xs. length (f x) = 1 \<Longrightarrow> length (concat (map f xs)) = length xs"
  by (induction xs) simp_all

lemma lut_glyph:
  assumes "wf_lut lut" "L \<le> 255"
  shows "\<exists>c. js_index lut (Fin (of_nat L)) = Some (Some [c])"
proof -
  have len: "L < length lut" using assms by (simp add: wf_lut_def)
  have "is_glyph (lut ! L)" using assms(1) len by (simp add: wf_lut_def list_all_length)
  then obtain c where "lut ! L = Some [c]"
    by (auto simp: is_glyph_def length_Suc_conv split: option.splits)
  then show ?thesis using js_index_nat [OF len] by simp
qed

lemma cell_text_length:
  assumes "wf_lut lut" "sums_ok t"
  shows "length (cell_text lut t) = 1"
proof (cases "0 < pixel_count t")
  case True
  obtain L where L: "L \<le> 255" "cell_luminance t = Fin (of_nat L)"
    using cell_luminance_ok [OF assms(2) True] by blast
  obtain c where "js_index lut (Fin (of_nat L)) = Some (Some [c])"
    using lut_glyph [OF assms(1) L(1)] by blast
  then show ?thesis using True L(2) by (simp add: cell_text_def js_str_def)
next
  case False
  obtain c where "js_index lut (Fin (of_nat 0)) = Some (Some [c])"
    using lut_glyph [OF assms(1), where L = 0] by auto
  then show ?thesis using False by (simp add: cell_text_def js_str_def)
qed

lemma row_text_length:
  assumes "wf_image img" "wf_lut lut" "cols < 2 ^ 53" "rows < 2 ^ 53" "row < rows"
  shows "length (row_text img cols rows lut row) = cols"
proof -
  have "\<forall>col\<in>set [0..<cols]. length (cell_text lut (grid_cell img cols rows row col)) = 1"
    using cell_text_length [OF assms(2) grid_cell_ok [OF assms(1,3,4,5)]] by simp
  then show ?thesis unfolding row_text_def by (simp add: length_concat_unit)
qed

text \<open>
  Claim C2. For a raster, a grid of \<open>rows\<close> by \<open>cols\<close> cells and a table of 256 glyphs, the
  text is made of \<open>rows\<close> lines of \<open>cols\<close> characters, each followed by the line
  terminator, and in colour mode there is one colour for each row, in row order. The
  grid dimensions are counts, below \<open>2 ^ 53\<close>.
\<close>

theorem imageDataToAscii_shape:
  assumes "wf_image img" "wf_lut lut" "cols < 2 ^ 53" "rows < 2 ^ 53"
  shows "\<exists>lines cs. length lines = rows \<and> (\<forall>l\<in>set lines. length l = cols)
    \<and> (\<forall>row<rows. lines ! row = row_text img cols rows lut row)
    \<and> length cs = rows \<and> (\<forall>row<rows. cs ! row = row_color img cols rows row)
    \<and> imageDataToAscii img cols rows lut colorMode
        = \<lparr>ascii = concat (map (\<lambda>l. l @ [CHR 0x0A]) lines),
           colors = (if colorMode then Some cs else None)\<rparr>"
proof -
  let ?lines = "map (row_text img cols rows lut) [0..<rows]"
  let ?cs = "map (row_color img cols rows) [0..<rows]"
  have 1: "length ?lines = rows" "length ?cs = rows" by simp_all
  have 2: "\<forall>l\<in>set ?lines. length l = cols"
    using row_text_length [OF assms] by auto
  have 3: "\<forall>row<rows. ?lines ! row = row_text img cols rows lut row"
    "\<forall>row<rows. ?cs ! row = row_color img cols rows row" by simp_all
  have 4: "imageDataToAscii img cols rows lut colorMode
        = \<lparr>ascii = concat (map (\<lambda>l. l @ [CHR 0x0A]) ?lines),
           colors = (if colorMode then Some ?cs else None)\<rparr>"
    by (simp add: imageDataToAscii_eq comp_def)
  show ?thesis using 1 2 3 4 by blast
qed

text \<open>
  Claim C10. In a well-formed raster every cell with at least one pixel has channel sums
  that are natural numbers (no read leaves the buffer), its luminance is an integer from
  0 to 255, and the look-up in a table of 256 entries finds an entry: the text of the
  cell is that entry. The result is built from such look-ups only.
\<close>

theorem luminance_in_range:
  assumes "wf_image img" "cols < 2 ^ 53" "rows < 2 ^ 53" "length lut = 256"
    "row < rows" "col < cols" "0 < pixel_count (grid_cell img cols rows row col)"
  shows "\<exists>L\<le>255. sums_ok (grid_cell img cols rows row col)
    \<and> cell_luminance (grid_cell img cols rows row col) = Fin (of_nat L)
    \<and> js_index lut (cell_luminance (grid_cell img cols rows row col)) = Some (lut ! L)
    \<and> cell_text lut (grid_cell img cols rows row col) = js_str (lut ! L)
    \<and> ascii (imageDataToAscii img cols rows lut colorMode)
        = concat (map (\<lambda>row. concat (map (\<lambda>col. cell_text lut (grid_cell img cols rows row col))
            [0..<cols]) @ [CHR 0x0A]) [0..<rows])"
proof -
  note ok = grid_cell_ok [OF assms(1,2,3,5,6)]
  obtain L where L: "L \<le> 255" "cell_luminance (grid_cell img cols rows row col) = Fin (of_nat L)"
    using cell_luminance_ok [OF ok assms(7)] by blast
  have len: "L < length lut" using L(1) assms(4) by simp
  have i: "js_index lut (cell_luminance (grid_cell img cols rows row col)) = Some (lut ! L)"
    unfolding L(2) using len by (rule js_index_nat)
  have t: "cell_text lut (grid_cell img cols rows row col) = js_str (lut ! L)"
    using assms(7) i by (simp add: cell_text_def)
  have a: "ascii (imageDataToAscii img cols rows lut colorMode)
        = concat (map (\<lambda>row. concat (map (\<lambda>col. cell_text lut (grid_cell img cols rows row col))
            [0..<cols]) @ [CHR 0x0A]) [0..<rows])"
    by (simp add: imageDataToAscii_eq row_text_def)
  show ?thesis using L ok i t a by blast
qed

text \<open>
  Claim C6. A cell whose rectangle holds no pixel adds entry 0 of the table to the row and
  leaves the colour of the row as it was. An empty raster converted to one column and one
  row gives the glyph of entry 0 and the line terminator.
\<close>

theorem empty_cell_default:
  "(pixel_count (cell_sums img cw ch row col) = 0 \<longrightarrow>
      cell_step img lut colorMode cw ch row col (rowString, rowColor)
        = (rowString @ js_str (Option.bind (js_index lut (Fin 0)) id), rowColor))
   \<and> (wf_lut lut \<longrightarrow>
      (\<exists>g. lut ! 0 = Some [g]
        \<and> imageDataToAscii \<lparr>data = [], width = 0, height = 0\<rparr> 1 1 lut colorMode
            = \<lparr>ascii = [g] @ [CHR 0x0A], colors = (if colorMode then Some [''''] else None)\<rparr>))"
proof -
  let ?img = "\<lparr>data = [], width = 0, height = 0\<rparr>"
  have 1: "pixel_count (cell_sums img cw ch row col) = 0 \<Longrightarrow>
      cell_step img lut colorMode cw ch row col (rowString, rowColor)
        = (rowString @ js_str (Option.bind (js_index lut (Fin 0)) id), rowColor)"
    by (simp add: cell_step_eq cell_text_def)
  have z: "rnd 0 = Fin 0" by (simp add: rnd_def)
  have c: "grid_cell ?img (Suc 0) (Suc 0) 0 0 = (Fin 0, Fin 0, Fin 0, 0)"
    by (simp add: grid_cell_def cell_sums_def num_def z cell_totals_def js_range_def)
  have 2: "\<exists>g. lut ! 0 = Some [g]
        \<and> imageDataToAscii ?img 1 1 lut colorMode
            = \<lparr>ascii = [g] @ [CHR 0x0A], colors = (if colorMode then Some [''''] else None)\<rparr>"
    if wl: "wf_lut lut"
  proof -
    obtain g where g: "js_index lut (Fin (of_nat 0)) = Some (Some [g])"
      using lut_glyph [OF wl, where L = 0] by auto
    have "0 < length lut" using wl by (simp add: wf_lut_def)
    then have l0: "lut ! 0 = Some [g]" using g by (simp add: js_index_def)
    have "imageDataToAscii ?img 1 1 lut colorMode
        = \<lparr>ascii = [g] @ [CHR 0x0A], colors = (if colorMode then Some [''''] else None)\<rparr>"
      using g by (simp add: imageDataToAscii_eq row_text_def row_color_def c pixel_count_def
          cell_text_def js_str_def)
    with l0 show ?thesis by blast
  qed
  show ?thesis using 1 2 by blast
qed

text \<open>
  Claim C7, as amended. In colour mode the colour of a row is the formatted mean colour of
  the last cell of the row that holds at least one pixel, so that of the cell in the last
  column when that cell is not empty, and the empty string when every cell of the row is
  empty.
\<close>

theorem row_color_last_nonempty:
  assumes "row < rows"
  shows "\<exists>cs. colors (imageDataToAscii img cols rows lut True) = Some cs \<and> length cs = rows
    \<and> (\<forall>col<cols. 0 < pixel_count (grid_cell img cols rows row col)
          \<and> (\<forall>c. col < c \<and> c < cols \<longrightarrow> pixel_count (grid_cell img cols rows row c) = 0)
        \<longrightarrow> cs ! row = cell_rgb (grid_cell img cols rows row col))
    \<and> ((\<forall>col<cols. pixel_count (grid_cell img cols rows row col) = 0) \<longrightarrow> cs ! row = '''')"
proof -
  let ?cs = "map (row_color img cols rows) [0..<rows]"
  have c: "colors (imageDataToAscii img cols rows lut True) = Some ?cs"
    by (simp add: imageDataToAscii_eq)
  have r: "?cs ! row = row_color img cols rows row" using assms by simp
  have a: "\<forall>col<cols. 0 < pixel_count (grid_cell img cols rows row col)
          \<and> (\<forall>c. col < c \<and> c < cols \<longrightarrow> pixel_count (grid_cell img cols rows row c) = 0)
        \<longrightarrow> ?cs ! row = cell_rgb (grid_cell img cols rows row col)"
    unfolding r using row_color_last [of _ cols img rows row] by blast
  have b: "(\<forall>col<cols. pixel_count (grid_cell img cols rows row col) = 0) \<longrightarrow> ?cs ! row = ''''"
    unfolding r using row_color_empty [of cols img rows row] by blast
  have l: "length ?cs = rows" by simp
  show ?thesis using c l a b by blast
qed


section \<open>Concrete conversions\<close>

lemma wf_one_pixel: "wf_image one_pixel"
  by (simp add: wf_image_def one_pixel_def)

lemma wf_flat_lut: "wf_lut flat_lut"
  by (simp add: wf_lut_def flat_lut_def is_glyph_def list_all_length)

lemma one_pixel_cell: "grid_cell one_pixel 1 1 0 0 = (Fin 10, Fin 20, Fin 30, 1)"
  by code_simp

theorem imageDataToAscii_shape_witness:
  "wf_image one_pixel \<and> wf_lut flat_lut \<and> (1::nat) < 2 ^ 53 \<and> (2::nat) < 2 ^ 53
   \<and> (\<exists>lines cs. length lines = 2 \<and> (\<forall>l\<in>set lines. length l = 1)
    \<and> (\<forall>row<2. lines ! row = row_text one_pixel 1 2 flat_lut row)
    \<and> length cs = 2 \<and> (\<forall>row<2. cs ! row = row_color one_pixel 1 2 row)
    \<and> imageDataToAscii one_pixel 1 2 flat_lut True
        = \<lparr>ascii = concat (map (\<lambda>l. l @ [CHR 0x0A]) lines),
           colors = (if True then Some cs else None)\<rparr>)"
proof -
  have h3: "(1::nat) < 2 ^ 53" and h4: "(2::nat) < 2 ^ 53" by simp_all
  show ?thesis
    using imageDataToAscii_shape [OF wf_one_pixel wf_flat_lut h3 h4, of True]
      wf_one_pixel wf_flat_lut h3 h4 by blast
qed

theorem luminance_in_range_witness:
  "wf_image one_pixel \<and> (1::nat) < 2 ^ 53 \<and> length flat_lut = 256 \<and> (0::nat) < 1
   \<and> 0 < pixel_count (grid_cell one_pixel 1 1 0 0)
   \<and> (\<exists>L\<le>255. sums_ok (grid_cell one_pixel 1 1 0 0)
    \<and> cell_luminance (grid_cell one_pixel 1 1 0 0) = Fin (of_nat L)
    \<and> js_index flat_lut (cell_luminance (grid_cell one_pixel 1 1 0 0)) = Some (flat_lut ! L)
    \<and> cell_text flat_lut (grid_cell one_pixel 1 1 0 0) = js_str (flat_lut ! L)
    \<and> ascii (imageDataToAscii one_pixel 1 1 flat_lut False)
        = concat (map (\<lambda>row. concat (map (\<lambda>col. cell_text flat_lut (grid_cell one_pixel 1 1 row col))
            [0..<1]) @ [CHR 0x0A]) [0..<1]))"
proof -
  have h: "(1::nat) < 2 ^ 53" "length flat_lut = 256" "(0::nat) < 1"
    by (simp_all add: flat_lut_def)
  have p: "0 < pixel_count (grid_cell one_pixel 1 1 0 0)"
    unfolding one_pixel_cell by (simp add: pixel_count_def)
  show ?thesis
    using luminance_in_range [OF wf_one_pixel h(1) h(1) h(2) h(3) h(3) p, of False]
      wf_one_pixel h p by blast
qed

theorem empty_cell_default_witness:
  "pixel_count (cell_sums \<lparr>data = [], width = 0, height = 0\<rparr> (Fin 0) (Fin 0) 0 0) = 0
   \<and> wf_lut flat_lut
   \<and> cell_step \<lparr>data = [], width = 0, height = 0\<rparr> flat_lut True (Fin 0) (Fin 0) 0 0 (''ab'', ''c'')
        = (''ab'' @ js_str (Option.bind (js_index flat_lut (Fin 0)) id), ''c'')
   \<and> (\<exists>g. flat_lut ! 0 = Some [g]
        \<and> imageDataToAscii \<lparr>data = [], width = 0, height = 0\<rparr> 1 1 flat_lut True
            = \<lparr>ascii = [g] @ [CHR 0x0A], colors = (if True then Some [''''] else None)\<rparr>)"
proof -
  have p: "pixel_count (cell_sums \<lparr>data = [], width = 0, height = 0\<rparr> (Fin 0) (Fin 0) 0 0) = 0"
    by code_simp
  show ?thesis
    using empty_cell_default [of "\<lparr>data = [], width = 0, height = 0\<rparr>" "Fin 0" "Fin 0" 0 0
        flat_lut True "''ab''" "''c''"] p wf_flat_lut by blast
qed

theorem row_color_last_nonempty_witness:
  "(0::nat) < 2
   \<and> (\<exists>cs. colors (imageDataToAscii one_pixel 1 2 flat_lut True) = Some cs \<and> length cs = 2
    \<and> (\<forall>col<1. 0 < pixel_count (grid_cell one_pixel 1 2 0 col)
          \<and> (\<forall>c. col < c \<and> c < 1 \<longrightarrow> pixel_count (grid_cell one_pixel 1 2 0 c) = 0)
        \<longrightarrow> cs ! 0 = cell_rgb (grid_cell one_pixel 1 2 0 col))
    \<and> ((\<forall>col<1. pixel_count (grid_cell one_pixel 1 2 0 col) = 0) \<longrightarrow> cs ! 0 = ''''))"
proof -
  have h: "(0::nat) < 2" by simp
  show ?thesis using row_color_last_nonempty [OF h, of one_pixel 1 flat_lut] h by blast
qed

text \<open>
  Claim C7 as stated fails where the last cell of a row is empty. One pixel converted to
  one column and two rows: the first row has no pixel, its colour is the empty string and
  not the formatted mean of its only cell.
\<close>

theorem row_color_counterexample:
  "colors (imageDataToAscii one_pixel 1 2 flat_lut True) = Some ['''', ''rgb(10, 20, 30)'']
   \<and> cell_rgb (grid_cell one_pixel 1 2 0 (1 - 1)) = ''rgb(NaN, NaN, NaN)''"
  by code_simp


section \<open>Grid dimensions\<close>

lemma rnd_0: "rnd 0 = Fin 0"
  by (simp add: rnd_def)

lemma cell_width_bounds:
  assumes "0 < w" "w < 2 ^ 53" "0 < c" "c < 2 ^ 53"
  shows "jdiv (num w) (num c) = Fin (fl (of_nat w / of_nat c))"
    "2 powi (- 53) \<le> fl (of_nat w / of_nat c)" "fl (of_nat w / of_nat c) \<le> of_nat w"
proof -
  have c0: "(0::rat) < of_nat c" and c1: "(1::rat) \<le> of_nat c" using assms(3) by simp_all
  have w1: "(1::rat) \<le> of_nat w" using assms(1) by simp
  have q_le: "(of_nat w :: rat) / of_nat c \<le> of_nat w"
    using c1 by (simp add: divide_le_eq mult_le_cancel_left1)
  have w64: "w \<le> 2 ^ 64" using assms(2) by simp
  show "jdiv (num w) (num c) = Fin (fl (of_nat w / of_nat c))"
    unfolding num_eq using c0 q_le w64 by (intro jdiv_fin [where n = w]) auto
  have "(2::rat) powi (- 53) = 1 / 2 ^ 53" by (simp add: power_int_minus_divide)
  also have "\<dots> \<le> 1 / of_nat c"
    using c0 of_nat_le_p2 [of c 53] assms(4) by (intro divide_left_mono) auto
  also have "\<dots> \<le> of_nat w / of_nat c" using w1 c0 by (intro divide_right_mono) auto
  finally have lo: "2 powi (- 53) \<le> (of_nat w :: rat) / of_nat c" .
  have "fl (2 powi (- 53)) \<le> fl (of_nat w / of_nat c)" using lo by (intro fl_mono) auto
  then show "2 powi (- 53) \<le> fl (of_nat w / of_nat c)" using fl_p2 [of "- 53"] by simp
  have "fl (of_nat w / of_nat c) \<le> fl (of_nat w)" using q_le by (intro fl_mono) auto
  then show "fl (of_nat w / of_nat c) \<le> of_nat w" using fl_of_nat [OF assms(2)] by simp
qed

lemma cell_height_bounds:
  assumes "0 < w" "w < 2 ^ 53" "0 < c" "c < 2 ^ 53"
  shows "jmul (jdiv (num w) (num c)) CHAR_Y_PER_X = Fin (fl (fl (of_nat w / of_nat c) * 2))"
    "2 powi (- 52) \<le> fl (fl (of_nat w / of_nat c) * 2)"
proof -
  let ?cw = "fl (of_nat w / of_nat c)"
  note b = cell_width_bounds [OF assms]
  have p: "(0::rat) < 2 powi (- 53)" by (rule p2_pos)
  have nn: "0 \<le> ?cw" using b(2) p by linarith
  have le: "?cw * 2 \<le> of_nat (2 * w)" using b(3) by simp
  have w64: "2 * w \<le> 2 ^ 64" using assms(2) by simp
  show "jmul (jdiv (num w) (num c)) CHAR_Y_PER_X = Fin (fl (?cw * 2))"
    unfolding b(1) CHAR_Y_PER_X_def using nn le w64 by (intro jmul_fin [where n = "2 * w"]) auto
  have "(2::rat) powi (- 52) = 2 powi (- 53 + 1)" by simp
  also have "\<dots> = 2 powi (- 53) * 2" by (simp only: p2_add) simp
  also have "\<dots> \<le> ?cw * 2" using b(2) by simp
  finally have lo: "2 powi (- 52) \<le> ?cw * 2" .
  have "fl (2 powi (- 52)) \<le> fl (?cw * 2)" using lo by (intro fl_mono) auto
  then show "2 powi (- 52) \<le> fl (?cw * 2)" using fl_p2 [of "- 52"] by simp
qed

lemma grid_rows:
  assumes "0 < w" "w < 2 ^ 53" "h < 2 ^ 53" "0 < c" "c < 2 ^ 53"
  shows "calculateGridDimensions w h c = (c, Fin (of_int (binary64_rows w h c)))"
    "0 \<le> binary64_rows w h c"
proof -
  let ?d = "fl (fl (of_nat w / of_nat c) * 2)"
  note b = cell_height_bounds [OF assms(1,2,4,5)]
  have p: "(0::rat) < 2 powi (- 52)" by (rule p2_pos)
  have d0: "0 < ?d" using b(2) p by linarith
  have q0: "0 \<le> (of_nat h :: rat) / ?d" using d0 by simp
  have "(of_nat h :: rat) / ?d \<le> of_nat h / 2 powi (- 52)"
    using b(2) p by (intro divide_left_mono mult_pos_pos) auto
  also have "\<dots> = of_nat h * 2 powi 52" by (simp add: power_int_minus_divide)
  also have "\<dots> \<le> 2 ^ 53 * 2 powi 52"
    using of_nat_le_p2 [of h 53] assms(3) by (intro mult_right_mono) auto
  also have "\<dots> = 2 powi 105" by simp
  also have "\<dots> \<le> 2 powi 1023" by (simp only: p2_le_iff)
  finally have q1: "(of_nat h :: rat) / ?d \<le> 2 powi 1023" .
  have "jdiv (Fin (of_nat h)) (Fin ?d) = Fin (fl (of_nat h / ?d))"
    using d0 rnd_fin [OF q0 q1] by simp
  then show "calculateGridDimensions w h c = (c, Fin (of_int (binary64_rows w h c)))"
    unfolding calculateGridDimensions_def Let_def b(1) binary64_rows_def by (simp add: num_eq)
  have "0 \<le> fl (of_nat h / ?d)" using q0 by (rule fl_nonneg)
  then show "0 \<le> binary64_rows w h c" unfolding binary64_rows_def by simp
qed

text \<open>
  Claim C8, as amended. For a positive column count no error is raised; the row count is 0
  when the height is 0 and the width is positive; when the width is 0 it is not 0 but
  \<^verbatim>\<open>Infinity\<close> for a positive height and \<^verbatim>\<open>NaN\<close> for the height 0.
\<close>

theorem calculateGridDimensions_zero:
  assumes "0 < columns" "columns < 2 ^ 53"
  shows "(0 < sourceWidth \<and> sourceWidth < 2 ^ 53 \<longrightarrow>
           calculateGridDimensions sourceWidth 0 columns = (columns, Fin 0))
    \<and> (0 < sourceHeight \<longrightarrow> calculateGridDimensions 0 sourceHeight columns = (columns, PInf))
    \<and> calculateGridDimensions 0 0 columns = (columns, NaN)"
proof -
  have a: "calculateGridDimensions sourceWidth 0 columns = (columns, Fin 0)"
    if "0 < sourceWidth" "sourceWidth < 2 ^ 53"
  proof -
    have "binary64_rows sourceWidth 0 columns = 0" by (simp add: binary64_rows_def)
    then show ?thesis using grid_rows(1) [OF that _ assms, of 0] by simp
  qed
  have z: "jmul (jdiv (num 0) (num columns)) CHAR_Y_PER_X = Fin 0"
    using assms(1) by (simp add: num_def rnd_0 CHAR_Y_PER_X_def)
  have b: "calculateGridDimensions 0 sourceHeight columns = (columns, PInf)" if "0 < sourceHeight"
    unfolding calculateGridDimensions_def Let_def z using that by (simp add: num_def)
  have c: "calculateGridDimensions 0 0 columns = (columns, NaN)"
    unfolding calculateGridDimensions_def Let_def z by (simp add: num_def)
  show ?thesis using a b c by blast
qed

theorem calculateGridDimensions_zero_witness:
  "(0::nat) < 80 \<and> (80::nat) < 2 ^ 53 \<and> (0::nat) < 640 \<and> (640::nat) < 2 ^ 53
    \<and> calculateGridDimensions 640 0 80 = (80, Fin 0)
    \<and> (0::nat) < 480 \<and> calculateGridDimensions 0 480 80 = (80, PInf)
    \<and> calculateGridDimensions 0 0 80 = (80, NaN)"
proof -
  have h: "(0::nat) < 80" "(80::nat) < 2 ^ 53" "(0::nat) < 640" "(640::nat) < 2 ^ 53"
    "(0::nat) < 480" by simp_all
  show ?thesis using calculateGridDimensions_zero [OF h(1,2), of 640 480] h by blast
qed

text \<open>
  Claim C8 as stated fails for the width 0: a frame of width 0 and height 480 at 80 columns
  gives \<^verbatim>\<open>Infinity\<close> rows, not 0.
\<close>

theorem calculateGridDimensions_zero_counterexample:
  "calculateGridDimensions 0 480 80 = (80, PInf) \<and> snd (calculateGridDimensions 0 480 80) \<noteq> Fin 0"
  by code_simp

section \<open>The end-to-end scenario\<close>

lemma gray_cells:
  "grid_cell gray_raster 2 2 0 0 = (Fin 128, Fin 128, Fin 128, 1)"
  "grid_cell gray_raster 2 2 0 (Suc 0) = (Fin 128, Fin 128, Fin 128, 1)"
  "grid_cell gray_raster 2 2 (Suc 0) 0 = (Fin 128, Fin 128, Fin 128, 1)"
  "grid_cell gray_raster 2 2 (Suc 0) (Suc 0) = (Fin 128, Fin 128, Fin 128, 1)"
  by code_simp+

lemma gray_luminance: "cell_luminance (Fin 128, Fin 128, Fin 128, 1) = Fin 128"
  by code_simp

lemma gray_rgb: "cell_rgb (Fin 128, Fin 128, Fin 128, 1) = ''rgb(128, 128, 128)''"
  by code_simp

lemma gray_index: "char_index 10 False 128 = Fin 4"
  by code_simp

text \<open>
  Claim C3. The two by two raster of pixels \<open>(128, 128, 128)\<close>, converted with the table of
  the charset \<open>simple\<close>, not inverted, to two columns and two rows in colour mode: every
  cell has luminance 128, the glyph index for 128 is 4, the glyph is \<open>=\<close>, the text is two
  lines \<open>==\<close> and both colours are \<open>rgb(128, 128, 128)\<close>.
\<close>

theorem gray_end_to_end:
  "\<exists>lut. createBrightnessLUT CHARSETS_simple False = Inr lut
    \<and> CHARSETS_simple = '' .:-=+*#%@'' \<and> length CHARSETS_simple = 10
    \<and> cell_luminance (grid_cell gray_raster 2 2 0 0) = Fin 128
    \<and> cell_luminance (grid_cell gray_raster 2 2 0 1) = Fin 128
    \<and> cell_luminance (grid_cell gray_raster 2 2 1 0) = Fin 128
    \<and> cell_luminance (grid_cell gray_raster 2 2 1 1) = Fin 128
    \<and> char_index (length CHARSETS_simple) False 128 = Fin 4
    \<and> CHARSETS_simple ! 4 = CHR ''=''
    \<and> lut ! 128 = Some ''=''
    \<and> imageDataToAscii gray_raster 2 2 lut True
        = \<lparr>ascii = [CHR ''='', CHR ''='', CHR 0x0A, CHR ''='', CHR ''='', CHR 0x0A],
           colors = Some [''rgb(128, 128, 128)'', ''rgb(128, 128, 128)'']\<rparr>"
proof -
  let ?lut = "map (\<lambda>b. charset_at CHARSETS_simple (char_index (length CHARSETS_simple) False b))
    [0..<256]"
  have len: "length CHARSETS_simple = 10" by (simp add: CHARSETS_simple_def)
  have ne: "CHARSETS_simple \<noteq> []" by (simp add: CHARSETS_simple_def)
  have c: "createBrightnessLUT CHARSETS_simple False = Inr ?lut"
    using ne by (rule createBrightnessLUT_eq)
  have ci: "char_index (length CHARSETS_simple) False 128 = Fin 4"
    unfolding len by (rule gray_index)
  have g: "CHARSETS_simple ! 4 = CHR ''=''" by (simp add: CHARSETS_simple_def)
  have at: "charset_at CHARSETS_simple (Fin 4) = Some ''=''"
    using js_index_nat [of 4 CHARSETS_simple] g len by (simp add: charset_at_def)
  have l: "?lut ! 128 = Some ''=''" using ci at by (simp del: upt_Suc)
  have i: "js_index ?lut (Fin 128) = Some (Some ''='')"
    using js_index_nat [of 128 ?lut] l by (simp del: upt_Suc)
  have t: "cell_text ?lut (Fin 128, Fin 128, Fin 128, 1) = ''=''"
    unfolding cell_text_def gray_luminance using i by (simp add: pixel_count_def js_str_def)
  have p: "0 < pixel_count (Fin 128, Fin 128, Fin 128, 1)" by (simp add: pixel_count_def)
  have two: "[0..<2] = [0, Suc 0]" by (simp add: upt_rec)
  have r: "imageDataToAscii gray_raster 2 2 ?lut True
        = \<lparr>ascii = [CHR ''='', CHR ''='', CHR 0x0A, CHR ''='', CHR ''='', CHR 0x0A],
           colors = Some [''rgb(128, 128, 128)'', ''rgb(128, 128, 128)'']\<rparr>"
    unfolding imageDataToAscii_eq row_text_def row_color_def two
    using p t gray_rgb by (simp add: gray_cells del: upt_Suc)
  have lum: "cell_luminance (grid_cell gray_raster 2 2 0 0) = Fin 128"
    "cell_luminance (grid_cell gray_raster 2 2 0 1) = Fin 128"
    "cell_luminance (grid_cell gray_raster 2 2 1 0) = Fin 128"
    "cell_luminance (grid_cell gray_raster 2 2 1 1) = Fin 128"
    using gray_cells gray_luminance by simp_all
  have cs: "CHARSETS_simple = '' .:-=+*#%@''" by (rule CHARSETS_simple_def)
  show ?thesis using c cs len lum ci g l r by blast
qed


lemma floor_quotient_gap:
  assumes "0 < m"
  shows "of_int \<lfloor>(of_nat n :: rat) / of_nat m\<rfloor> \<le> (of_nat n :: rat) / of_nat m"
    "(of_nat n :: rat) / of_nat m \<le> of_int \<lfloor>(of_nat n :: rat) / of_nat m\<rfloor> + 1 - 1 / of_nat m"
proof -
  show "of_int \<lfloor>(of_nat n :: rat) / of_nat m\<rfloor> \<le> (of_nat n :: rat) / of_nat m" by simp
  have f: "\<lfloor>(of_nat n :: rat) / of_nat m\<rfloor> = int (n div m)"
    by (simp add: floor_divide_of_nat_eq)
  have "n mod m + 1 \<le> m" using assms by (simp add: Suc_leI)
  moreover have "n = m * (n div m) + n mod m" by simp
  ultimately have "n + 1 \<le> m * (n div m) + m" by linarith
  then have "(of_nat (n + 1) :: rat) \<le> of_nat (m * (n div m) + m)" by (simp only: of_nat_le_iff)
  then have "(of_nat n :: rat) + 1 \<le> of_nat m * (of_nat (n div m) + 1)"
    by (simp add: algebra_simps)
  then have "((of_nat n :: rat) + 1) / of_nat m \<le> of_nat (n div m) + 1"
    using assms by (simp add: divide_le_eq mult.commute)
  then show "(of_nat n :: rat) / of_nat m \<le> of_int \<lfloor>(of_nat n :: rat) / of_nat m\<rfloor> + 1 - 1 / of_nat m"
    unfolding f by (simp add: add_divide_distrib)
qed

lemma glyph_index_error:
  assumes "b \<le> 255"
  shows "\<bar>fl (fl (of_nat b / 255) * of_nat M) - of_nat b / 255 * of_nat M\<bar> \<le> of_nat M / 2 ^ 52"
proof (cases "b = 0 \<or> M = 0")
  case True
  then show ?thesis by auto
next
  case False
  let ?M = "of_nat M :: rat" and ?a = "of_nat b / 255 :: rat"
  let ?q = "fl ?a"
  let ?p = "fl (?q * ?M)"
  have M1: "1 \<le> ?M" and b1: "(1::rat) \<le> of_nat b" using False by simp_all
  note s = scaled_bounds [OF assms]
  have a1: "?a \<le> 1" using assms by simp
  have "(2::rat) powi (- 8) = 1 / 256" by (simp add: power_int_minus_divide)
  also have "\<dots> \<le> ?a" using b1 by simp
  finally have lo8: "2 powi (- 8) \<le> ?a" .
  have p8: "(2::rat) powi (- 1022) \<le> 2 powi (- 8)" by (simp only: p2_le_iff)
  have e1: "\<bar>?q - ?a\<bar> \<le> ?a / 2 ^ 53" using lo8 p8 by (intro fl_err) (rule order_trans)
  have "fl (2 powi (- 8)) \<le> ?q" using lo8 by (intro fl_mono) auto
  then have q8: "2 powi (- 8) \<le> ?q" using fl_p2 [of "- 8"] by simp
  have "?q * 1 \<le> ?q * ?M" using M1 s(1) by (intro mult_left_mono) auto
  then have "?q \<le> ?q * ?M" by simp
  with q8 have qM8: "2 powi (- 8) \<le> ?q * ?M" by (rule order_trans)
  have e2: "\<bar>?p - ?q * ?M\<bar> \<le> ?q * ?M / 2 ^ 53" using qM8 p8 by (intro fl_err) (rule order_trans)
  have "?q * ?M \<le> 1 * ?M" using s(2) by (intro mult_right_mono) auto
  then have b2: "\<bar>?p - ?q * ?M\<bar> \<le> ?M / 2 ^ 53" using e2 by (simp add: divide_le_eq)
  have "\<bar>?q - ?a\<bar> * ?M \<le> (?a / 2 ^ 53) * ?M" using e1 by (intro mult_right_mono) auto
  also have "\<dots> \<le> (1 / 2 ^ 53) * ?M" using a1 by (intro mult_right_mono) (auto simp: divide_le_eq)
  finally have b3: "\<bar>(?q - ?a) * ?M\<bar> \<le> ?M / 2 ^ 53" by (simp add: abs_mult)
  have "?p - ?a * ?M = (?p - ?q * ?M) + (?q - ?a) * ?M" by (simp add: algebra_simps)
  then have "\<bar>?p - ?a * ?M\<bar> \<le> \<bar>?p - ?q * ?M\<bar> + \<bar>(?q - ?a) * ?M\<bar>" by (simp only: abs_triangle_ineq)
  also have "\<dots> \<le> ?M / 2 ^ 53 + ?M / 2 ^ 53" using b2 b3 by (rule add_mono)
  also have "\<dots> = ?M / 2 ^ 52" by simp
  finally show ?thesis .
qed

lemma glyph_index_near_exact:
  assumes "0 < N" "N \<le> 2 ^ 44" "b \<le> 255"
  shows "spec_glyph_index N b - 1 \<le> int (binary64_glyph_index N b)"
    "int (binary64_glyph_index N b) \<le> spec_glyph_index N b"
proof -
  let ?M = "of_nat (N - 1) :: rat" and ?a = "of_nat b / 255 :: rat"
  let ?p = "fl (fl ?a * ?M)"
  let ?x = "?a * ?M"
  have e: "(of_nat N :: rat) - 1 = ?M" using assms(1) by (simp add: of_nat_diff)
  have "N - 1 \<le> 2 ^ 44" using assms(2) by simp
  then have "?M \<le> 2 ^ 44" by (rule of_nat_le_p2)
  then have small: "?M / 2 ^ 52 \<le> 1 / 256" by simp
  have err: "\<bar>?p - ?x\<bar> \<le> 1 / 256"
    using glyph_index_error [OF assms(3), of "N - 1"] small by (rule order_trans)
  have x: "?x = of_nat (b * (N - 1)) / of_nat 255" by simp
  define k where "k = \<lfloor>?x\<rfloor>"
  have k: "spec_glyph_index N b = k" unfolding spec_glyph_index_def e k_def ..
  have g: "of_int k \<le> ?x" "?x \<le> of_int k + 1 - 1 / 255"
    unfolding k_def x using floor_quotient_gap [of 255 "b * (N - 1)"] by simp_all
  have p0: "0 \<le> ?p" using scaled_bounds(1) [OF assms(3)] by (intro fl_nonneg) auto
  have d: "?p - ?x \<le> 1 / 256" "?x - ?p \<le> 1 / 256"
    using err by (simp_all only: abs_le_iff minus_diff_eq)
  have up: "?p < of_int k + 1" using d(1) g(2) by linarith
  have "of_int k - 1 \<le> ?p" using d(2) g(1) by linarith
  then have lo: "of_int (k - 1) \<le> ?p" by simp
  have fu: "\<lfloor>?p\<rfloor> \<le> k" using up by (simp only: floor_le_iff)
  have fd: "k - 1 \<le> \<lfloor>?p\<rfloor>" using lo by (simp only: le_floor_iff)
  have i: "int (binary64_glyph_index N b) = \<lfloor>?p\<rfloor>"
    unfolding binary64_glyph_index_def e using p0 by simp
  show "spec_glyph_index N b - 1 \<le> int (binary64_glyph_index N b)" unfolding k i by (rule fd)
  show "int (binary64_glyph_index N b) \<le> spec_glyph_index N b" unfolding k i by (rule fu)
qed

text \<open>
  Claim C1, as amended. For a non-empty charset of length \<open>N\<close> and a luminance \<open>b\<close> from 0
  to 255, the table has 256 entries, and entry \<open>b\<close> is the glyph of the charset at the index
  that \<open>floor((b / 255) * (N - 1))\<close> has when the quotient and then the product are rounded
  to binary64, or at \<open>(N - 1)\<close> minus that index when \<open>invert\<close> is set. That index is at
  most \<open>N - 1\<close>; for up to \<open>2 ^ 44\<close> glyphs it is the floor of the exact value or one less,
  and it is one less for 52 glyphs at luminance 155: 30 and not 31. The length of a string
  is below \<open>2 ^ 53\<close>.
\<close>

theorem createBrightnessLUT_entries:
  assumes "charset \<noteq> []" "length charset < 2 ^ 53" "b \<le> 255"
  shows "\<exists>lut. createBrightnessLUT charset invert = Inr lut \<and> length lut = 256
    \<and> binary64_glyph_index (length charset) b \<le> length charset - 1
    \<and> lut ! b = Some [charset ! (if invert
                          then length charset - 1 - binary64_glyph_index (length charset) b
                          else binary64_glyph_index (length charset) b)]
    \<and> (length charset \<le> 2 ^ 44 \<longrightarrow>
          spec_glyph_index (length charset) b - 1 \<le> int (binary64_glyph_index (length charset) b)
          \<and> int (binary64_glyph_index (length charset) b) \<le> spec_glyph_index (length charset) b)
    \<and> binary64_glyph_index 52 155 = 30 \<and> spec_glyph_index 52 155 = 31"
proof -
  have N: "0 < length charset" using assms(1) by simp
  have b: "b < 256" using assms(3) by simp
  have c1: "binary64_glyph_index 52 155 = 30" by code_simp
  have c2: "spec_glyph_index 52 155 = 31" by code_simp
  have t: "length (map (\<lambda>b. charset_at charset (char_index (length charset) invert b)) [0..<256])
      = 256" by simp
  have e: "map (\<lambda>b. charset_at charset (char_index (length charset) invert b)) [0..<256] ! b
      = Some [charset ! (if invert
                          then length charset - 1 - binary64_glyph_index (length charset) b
                          else binary64_glyph_index (length charset) b)]"
    using lut_entry [OF assms, of invert] b by (simp del: upt_Suc)
  show ?thesis
    unfolding createBrightnessLUT_eq [OF assms(1)]
    using t e binary64_glyph_index_le [OF N assms(2,3)]
      glyph_index_near_exact [OF N _ assms(3)] c1 c2
    by blast
qed

theorem createBrightnessLUT_entries_witness:
  "''ab'' \<noteq> [] \<and> length ''ab'' < 2 ^ 53 \<and> (255::nat) \<le> 255 \<and> length ''ab'' \<le> 2 ^ 44
   \<and> (\<exists>lut. createBrightnessLUT ''ab'' True = Inr lut \<and> length lut = 256
    \<and> binary64_glyph_index (length ''ab'') 255 \<le> length ''ab'' - 1
    \<and> lut ! 255 = Some [''ab'' ! (length ''ab'' - 1 - binary64_glyph_index (length ''ab'') 255)]
    \<and> spec_glyph_index (length ''ab'') 255 - 1 \<le> int (binary64_glyph_index (length ''ab'') 255)
    \<and> int (binary64_glyph_index (length ''ab'') 255) \<le> spec_glyph_index (length ''ab'') 255)"
proof -
  have h: "''ab'' \<noteq> []" "length ''ab'' < 2 ^ 53" "(255::nat) \<le> 255" "length ''ab'' \<le> 2 ^ 44"
    by simp_all
  obtain lut where l: "createBrightnessLUT ''ab'' True = Inr lut" "length lut = 256"
    "binary64_glyph_index (length ''ab'') 255 \<le> length ''ab'' - 1"
    "lut ! 255 = Some [''ab'' ! (if True
                          then length ''ab'' - 1 - binary64_glyph_index (length ''ab'') 255
                          else binary64_glyph_index (length ''ab'') 255)]"
    "length ''ab'' \<le> 2 ^ 44 \<longrightarrow>
          spec_glyph_index (length ''ab'') 255 - 1 \<le> int (binary64_glyph_index (length ''ab'') 255)
          \<and> int (binary64_glyph_index (length ''ab'') 255) \<le> spec_glyph_index (length ''ab'') 255"
    using createBrightnessLUT_entries [OF h(1,2,3), of True] by blast
  have "lut ! 255 = Some [''ab'' ! (length ''ab'' - 1 - binary64_glyph_index (length ''ab'') 255)]"
    using l(4) by (simp only: if_True)
  then show ?thesis using h l(1,2,3,5) by blast
qed

text \<open>
  Claim C1 as stated fails where rounding brings the product just below an integer. For
  the 52 letters of the alphabet, entry 155 of the table is the glyph at index 30, the
  letter \<open>e\<close>, while \<open>floor((155 / 255) * 51) = 31\<close> names the letter \<open>f\<close>.
\<close>

theorem createBrightnessLUT_entries_counterexample:
  "createBrightnessLUT alphabet52 False = Inr (projr (createBrightnessLUT alphabet52 False))
   \<and> projr (createBrightnessLUT alphabet52 False) ! 155 = Some ''e''
   \<and> length alphabet52 = 52 \<and> spec_glyph_index 52 155 = 31 \<and> alphabet52 ! 31 = CHR ''f''"
proof -
  have len: "length alphabet52 = 52" by (simp add: alphabet52_def)
  have ne: "alphabet52 \<noteq> []" by (simp add: alphabet52_def)
  have ci: "char_index 52 False 155 = Fin 30" by code_simp
  have at: "charset_at alphabet52 (Fin 30) = Some ''e''" by code_simp
  have s: "spec_glyph_index 52 155 = 31" by code_simp
  have f: "alphabet52 ! 31 = CHR ''f''" by (simp add: alphabet52_def)
  have e: "map (\<lambda>b. charset_at alphabet52 (char_index (length alphabet52) False b)) [0..<256] ! 155
      = Some ''e''"
    unfolding len using ci at by (simp del: upt_Suc)
  show ?thesis
    unfolding createBrightnessLUT_eq [OF ne] using e len s f by simp
qed


lemma fl_rel:
  assumes "2 powi (- 53) \<le> x"
  shows "x * (1 - 1 / 2 ^ 53) \<le> fl x" "fl x \<le> x * (1 + 1 / 2 ^ 53)"
proof -
  have p: "(2::rat) powi (- 1022) \<le> 2 powi (- 53)" by (simp only: p2_le_iff)
  have "\<bar>fl x - x\<bar> \<le> x / 2 ^ 53" using p assms by (intro fl_err) (rule order_trans)
  then have d: "fl x - x \<le> x / 2 ^ 53" "x - fl x \<le> x / 2 ^ 53"
    by (simp_all only: abs_le_iff minus_diff_eq)
  have q: "x * (1 - 1 / 2 ^ 53) = x - x / 2 ^ 53" "x * (1 + 1 / 2 ^ 53) = x + x / 2 ^ 53"
    by (simp_all add: algebra_simps)
  show "x * (1 - 1 / 2 ^ 53) \<le> fl x" unfolding q(1) using d(2) by linarith
  show "fl x \<le> x * (1 + 1 / 2 ^ 53)" unfolding q(2) using d(1) by linarith
qed

lemma rows_near_exact:
  assumes "0 < w" "w < 2 ^ 52" "0 < h" "0 < c" "c < 2 ^ 53" "h * c < 2 ^ 51"
  shows "spec_rows w h c - 1 \<le> binary64_rows w h c"
    "binary64_rows w h c \<le> spec_rows w h c"
proof -
  define a where "a = (of_nat w :: rat) / of_nat c"
  define cw where "cw = fl a"
  define d where "d = fl (cw * 2)"
  define y where "y = (of_nat h :: rat) / d"
  define r where "r = fl y"
  define x where "x = (of_nat h :: rat) / (a * 2)"
  define e where "e = (1::rat) / 2 ^ 53"
  define lo where "lo = (1 - e) * (1 - e)"
  define hi where "hi = (1 + e) * (1 + e)"
  have e0: "0 < lo" "0 < hi" "0 < 1 - e" "0 < 1 + e" "hi \<le> 2"
    unfolding lo_def hi_def e_def by simp_all
  have c0: "(0::rat) < of_nat c" and w1: "(1::rat) \<le> of_nat w" and h1: "(1::rat) \<le> of_nat h"
    using assms(1,3,4) by simp_all
  have w53: "w < 2 ^ 53" using assms(2) by simp
  have a0: "0 < a" unfolding a_def using c0 w1 by simp
  have "(2::rat) powi (- 53) = 1 / 2 ^ 53" by (simp add: power_int_minus_divide)
  also have "\<dots> \<le> 1 / of_nat c"
    using c0 of_nat_le_p2 [of c 53] assms(5) by (intro divide_left_mono) auto
  also have "\<dots> \<le> a" unfolding a_def using w1 c0 by (intro divide_right_mono) auto
  finally have a53: "2 powi (- 53) \<le> a" .
  have aw: "a \<le> of_nat w" unfolding a_def using assms(4)
    by (simp add: divide_le_eq mult_le_cancel_left1)
  note cwb = fl_rel [OF a53, folded cw_def e_def]
  have cw53: "2 powi (- 53) \<le> cw"
    unfolding cw_def a_def using cell_width_bounds(2) [OF assms(1) w53 assms(4,5)] .
  have p53: "(0::rat) < 2 powi (- 53)" by (rule p2_pos)
  have cw0: "0 < cw" using cw53 p53 by linarith
  have t53: "2 powi (- 53) \<le> cw * 2" using cw53 cw0 by linarith
  note db = fl_rel [OF t53, folded d_def e_def]
  have "a * 2 * lo = a * (1 - e) * 2 * (1 - e)" by (simp add: lo_def)
  also have "\<dots> \<le> cw * 2 * (1 - e)" using cwb(1) e0(3) by (intro mult_right_mono) auto
  also have "\<dots> \<le> d" by (rule db(1))
  finally have d_lo: "a * 2 * lo \<le> d" .
  have "d \<le> cw * 2 * (1 + e)" by (rule db(2))
  also have "\<dots> \<le> a * (1 + e) * 2 * (1 + e)" using cwb(2) e0(4) by (intro mult_right_mono) auto
  also have "\<dots> = a * 2 * hi" by (simp add: hi_def)
  finally have d_hi: "d \<le> a * 2 * hi" .
  have al: "0 < a * 2 * lo" using a0 e0(1) by simp
  have d0: "0 < d" using al d_lo by linarith
  have "y \<le> of_nat h / (a * 2 * lo)"
    unfolding y_def using d_lo al d0 a0 e0(1) by (intro divide_left_mono mult_pos_pos) auto
  then have y_hi: "y \<le> x / lo" unfolding x_def by (simp add: mult.assoc)
  have "of_nat h / (a * 2 * hi) \<le> y"
    unfolding y_def using d_hi d0 a0 e0(2) by (intro divide_left_mono mult_pos_pos) auto
  then have y_lo: "x / hi \<le> y" unfolding x_def by (simp add: mult.assoc)
  have x0: "0 < x" unfolding x_def using a0 h1 by simp
  have "a * 2 * hi \<le> of_nat w * 2 * 2" using aw e0(2,5) a0 by (intro mult_mono) auto
  also have "\<dots> \<le> 2 ^ 52 * 2 * 2" using of_nat_le_p2 [of w 52] assms(2) by simp
  finally have d54: "d \<le> 2 ^ 54" using d_hi by simp
  have "(2::rat) powi (- 54) = 1 / 2 ^ 54" by (simp add: power_int_minus_divide)
  also have "\<dots> \<le> 1 / d" using d54 d0 by (intro divide_left_mono mult_pos_pos) auto
  also have "\<dots> \<le> y" unfolding y_def using h1 d0 by (intro divide_right_mono) auto
  finally have y54: "2 powi (- 54) \<le> y" .
  have "(2::rat) powi (- 53) \<le> 2 powi (- 54 + 1)" by simp
  have p54: "(2::rat) powi (- 1022) \<le> 2 powi (- 54)" by (simp only: p2_le_iff)
  have "\<bar>r - y\<bar> \<le> y / 2 ^ 53"
    unfolding r_def using p54 y54 by (intro fl_err) (rule order_trans)
  then have ry: "r - y \<le> y * e" "y - r \<le> y * e"
    unfolding e_def by (simp_all only: abs_le_iff minus_diff_eq times_divide_eq_right mult_1_right)
  have y0: "0 < y" unfolding y_def using d0 h1 by simp
  have n1: "(1 + e) / lo \<le> 1 + 1 / 2 ^ 51" unfolding lo_def e_def by simp
  have n2: "1 - 1 / 2 ^ 51 \<le> (1 - e) / hi" unfolding hi_def e_def by simp
  have "r \<le> y * (1 + e)" using ry(1) by (simp add: algebra_simps)
  also have "\<dots> \<le> (x / lo) * (1 + e)" using y_hi e0(4) by (intro mult_right_mono) auto
  also have "\<dots> = x * ((1 + e) / lo)" by simp
  also have "\<dots> \<le> x * (1 + 1 / 2 ^ 51)" using n1 x0 by (intro mult_left_mono) auto
  finally have r_hi: "r \<le> x + x / 2 ^ 51" by (simp add: algebra_simps)
  have "x * (1 - 1 / 2 ^ 51) \<le> x * ((1 - e) / hi)" using n2 x0 by (intro mult_left_mono) auto
  also have "\<dots> = (x / hi) * (1 - e)" by simp
  also have "\<dots> \<le> y * (1 - e)" using y_lo e0(3) by (intro mult_right_mono) auto
  also have "\<dots> \<le> r" using ry(2) by (simp add: algebra_simps)
  finally have r_lo: "x - x / 2 ^ 51 \<le> r" by (simp add: algebra_simps)
  have xq: "x = of_nat (h * c) / of_nat (2 * w)"
    unfolding x_def a_def using c0 w1 by (simp add: field_simps)
  define k where "k = \<lfloor>x\<rfloor>"
  have g: "of_int k \<le> x" "x \<le> of_int k + 1 - 1 / of_nat (2 * w)"
    unfolding k_def xq using floor_quotient_gap [of "2 * w" "h * c"] assms(1) by simp_all
  have "(of_nat (h * c) :: rat) < of_nat (2 ^ 51)" using assms(6) by (simp only: of_nat_less_iff)
  then have "(of_nat (h * c) :: rat) / 2 ^ 51 < 1" by simp
  then have "(of_nat (h * c) :: rat) / 2 ^ 51 / of_nat (2 * w) < 1 / of_nat (2 * w)"
    using assms(1) by (intro divide_strict_right_mono) auto
  then have xs: "x / 2 ^ 51 < 1 / of_nat (2 * w)" unfolding xq by (simp add: field_simps)
  have w2: "1 / (of_nat (2 * w) :: rat) \<le> 1" using w1 by simp
  have up: "r < of_int k + 1" using r_hi g(2) xs by linarith
  have "of_int k - 1 \<le> r" using r_lo g(1) xs w2 by linarith
  then have dn: "of_int (k - 1) \<le> r" by simp
  have b: "binary64_rows w h c = \<lfloor>r\<rfloor>"
    unfolding binary64_rows_def r_def y_def d_def cw_def a_def ..
  have s: "spec_rows w h c = k"
    unfolding spec_rows_def k_def x_def a_def ..
  show "spec_rows w h c - 1 \<le> binary64_rows w h c"
    unfolding b s using dn by (simp only: le_floor_iff)
  show "binary64_rows w h c \<le> spec_rows w h c"
    unfolding b s using up by (simp only: floor_le_iff)
qed

text \<open>
  Claim C4, as amended. For positive dimensions and a positive column count, the result
  holds the given column count, and the row count is the value that
  \<open>floor(sourceHeight / ((sourceWidth / columns) * 2))\<close> has when each quotient and the
  product are rounded to binary64; it is a natural number. While
  \<open>sourceHeight * columns < 2 ^ 51\<close> it is the floor of the exact value or one less, and it
  is one less for a source of 800 by 600 at 136 columns: 50 rows and not 51. The two
  examples of the specification are as stated.
\<close>

theorem calculateGridDimensions_rows:
  "(0 < sourceWidth \<and> sourceWidth < 2 ^ 53 \<and> 0 < sourceHeight \<and> sourceHeight < 2 ^ 53
      \<and> 0 < columns \<and> columns < 2 ^ 53 \<longrightarrow>
      calculateGridDimensions sourceWidth sourceHeight columns
        = (columns, Fin (of_int (binary64_rows sourceWidth sourceHeight columns)))
      \<and> 0 \<le> binary64_rows sourceWidth sourceHeight columns)
   \<and> (0 < sourceWidth \<and> sourceWidth < 2 ^ 52 \<and> 0 < sourceHeight
      \<and> 0 < columns \<and> columns < 2 ^ 53 \<and> sourceHeight * columns < 2 ^ 51 \<longrightarrow>
      spec_rows sourceWidth sourceHeight columns - 1
        \<le> binary64_rows sourceWidth sourceHeight columns
      \<and> binary64_rows sourceWidth sourceHeight columns
        \<le> spec_rows sourceWidth sourceHeight columns)
   \<and> calculateGridDimensions 640 480 80 = (80, Fin 30)
   \<and> calculateGridDimensions 1920 1080 120 = (120, Fin 33)
   \<and> calculateGridDimensions 800 600 136 = (136, Fin 50) \<and> spec_rows 800 600 136 = 51"
proof -
  have 1: "calculateGridDimensions 640 480 80 = (80, Fin 30)" by code_simp
  have 2: "calculateGridDimensions 1920 1080 120 = (120, Fin 33)" by code_simp
  have 3: "calculateGridDimensions 800 600 136 = (136, Fin 50)" by code_simp
  have 4: "spec_rows 800 600 136 = 51" by code_simp
  show ?thesis
    using grid_rows [of sourceWidth sourceHeight columns]
      rows_near_exact [of sourceWidth sourceHeight columns] 1 2 3 4 by blast
qed

theorem calculateGridDimensions_rows_witness:
  "(0::nat) < 640 \<and> (640::nat) < 2 ^ 52 \<and> (0::nat) < 480 \<and> (480::nat) < 2 ^ 53
    \<and> (0::nat) < 80 \<and> (80::nat) < 2 ^ 53 \<and> (480::nat) * 80 < 2 ^ 51
    \<and> calculateGridDimensions 640 480 80 = (80, Fin (of_int (binary64_rows 640 480 80)))
    \<and> 0 \<le> binary64_rows 640 480 80
    \<and> spec_rows 640 480 80 - 1 \<le> binary64_rows 640 480 80
    \<and> binary64_rows 640 480 80 \<le> spec_rows 640 480 80"
  using calculateGridDimensions_rows [of 640 480 80] by simp

text \<open>
  Claim C4 as stated fails where rounding brings the last quotient just below an integer.
  A source of 800 by 600 at 136 columns gets 50 rows, while
  \<open>floor(600 / ((800 / 136) * 2)) = 51\<close>.
\<close>

theorem calculateGridDimensions_rows_counterexample:
  "calculateGridDimensions 800 600 136 = (136, Fin 50) \<and> spec_rows 800 600 136 = 51"
  by code_simp

end
